theory Spec2Isabelle
  imports Complex_Main "HOL-Library.Monad_Syntax"
begin

section \<open>Model of \<^verbatim>\<open>2-better-advection/Fluid.cpp\<close>\<close>

text \<open>
  Conventions of the embedding.
  \<^item> A C++ \<^verbatim>\<open>double\<close> is a \<^typ>\<open>real\<close>: arithmetic is exact, there is no rounding, no
    infinity and no NaN. Every statement below is about this idealised arithmetic.
  \<^item> The divisions of the solver class go through \<open>fdiv\<close>: a division by zero, whose
    C++ result is infinite or NaN, yields \<open>None\<close>. The field class divides by its cell
    size, which is not zero on any field a solver is built with, and in \<^verbatim>\<open>addInflow\<close> by
    the extents of the rectangle, inside loops that are empty when an extent is 0; these
    divisions are plain divisions of reals.
  \<^item> A C++ \<^verbatim>\<open>int\<close> is an \<^typ>\<open>int\<close>. The constructors, whose array sizes are products
    of the dimensions, check every product and sum against the 32-bit range (signed
    overflow is undefined behaviour); elsewhere indices stay below the size of an
    allocated array.
  \<^item> A heap array is a \<^typ>\<open>real list\<close>. Reading or writing an index outside the
    allocated array is undefined behaviour in C++; here such an access yields \<open>None\<close>,
    and so does every operation that performs one. Allocating an array of non-negative
    size is taken to succeed: memory is not a resource of the model.
  \<^item> A \<^verbatim>\<open>for\<close> loop over an integer range is \<open>for_loop\<close> over the list of the values
    the loop variable takes, in order.
\<close>

subsection \<open>Primitives\<close>

text \<open>The cast \<^verbatim>\<open>(int)x\<close> truncates towards zero.\<close>

definition trunc_int :: "real \<Rightarrow> int" where
  "trunc_int x = (if 0 \<le> x then \<lfloor>x\<rfloor> else \<lceil>x\<rceil>)"

text \<open>A division whose divisor may be zero.\<close>

definition fdiv :: "real \<Rightarrow> real \<Rightarrow> real option" where
  "fdiv a b = (if b = 0 then None else Some (a / b))"

text \<open>\<^verbatim>\<open>buf[i]\<close> as a read and as a write.\<close>

definition rd :: "real list \<Rightarrow> int \<Rightarrow> real option" where
  "rd buf i = (if 0 \<le> i \<and> i < int (length buf) then Some (buf ! nat i) else None)"

definition wr :: "real list \<Rightarrow> int \<Rightarrow> real \<Rightarrow> real list option" where
  "wr buf i v = (if 0 \<le> i \<and> i < int (length buf) then Some (buf[nat i := v]) else None)"

text \<open>\<^verbatim>\<open>for (i = lo; i < hi; i++) body\<close> is \<open>for_loop [lo..hi - 1] body\<close>.\<close>

fun for_loop :: "'a list \<Rightarrow> ('a \<Rightarrow> 's \<Rightarrow> 's option) \<Rightarrow> 's \<Rightarrow> 's option" where
  "for_loop [] body s = Some s"
| "for_loop (i # is) body s = (case body i s of None \<Rightarrow> None | Some s' \<Rightarrow> for_loop is body s')"

text \<open>\<^verbatim>\<open>length(x, y)\<close>: length of the vector (x, y).\<close>

definition length_xy :: "real \<Rightarrow> real \<Rightarrow> real" where
  "length_xy x y = sqrt (x*x + y*y)"

definition cubicPulse :: "real \<Rightarrow> real" where
  "cubicPulse x0 = (let x = min \<bar>x0\<bar> 1.0 in 1.0 - x*x*(3.0 - 2.0*x))"

subsection \<open>\<^verbatim>\<open>class FluidQuantity\<close>\<close>

record FluidQuantity =
  q_src :: "real list"
  q_dst :: "real list"
  q_w :: int
  q_h :: int
  q_ox :: real
  q_oy :: real
  q_hx :: real

text \<open>\<^verbatim>\<open>lerp(a, b, x)\<close>, the private one-dimensional overload.\<close>

definition lerp :: "real \<Rightarrow> real \<Rightarrow> real \<Rightarrow> real" where
  "lerp a b x = a*(1.0 - x) + b*x"

text \<open>\<^verbatim>\<open>cerp(a, b, c, d, x)\<close>, the private one-dimensional overload (Catmull-Rom, clamped).\<close>

definition cerp :: "real \<Rightarrow> real \<Rightarrow> real \<Rightarrow> real \<Rightarrow> real \<Rightarrow> real" where
  "cerp a b c d x =
    (let xsq = x*x;
         xcu = xsq*x;
         minV = min a (min b (min c d));
         maxV = max a (max b (max c d));
         t = a*(0.0 - 0.5*x + 1.0*xsq - 0.5*xcu) +
             b*(1.0 + 0.0*x - 2.5*xsq + 1.5*xcu) +
             c*(0.0 + 0.5*x + 2.0*xsq - 1.5*xcu) +
             d*(0.0 + 0.0*x - 0.5*xsq + 0.5*xcu)
     in min (max t minV) maxV)"

text \<open>\<^verbatim>\<open>at(x, y)\<close>: \<^verbatim>\<open>_src[x + y*_w]\<close>, read and written.\<close>

definition at_xy :: "FluidQuantity \<Rightarrow> int \<Rightarrow> int \<Rightarrow> real option" where
  "at_xy q x y = rd (q_src q) (x + y * q_w q)"

definition set_at :: "FluidQuantity \<Rightarrow> int \<Rightarrow> int \<Rightarrow> real \<Rightarrow> FluidQuantity option" where
  "set_at q x y a = do {
     src \<leftarrow> wr (q_src q) (x + y * q_w q) a;
     Some (q\<lparr>q_src := src\<rparr>) }"

text \<open>\<^verbatim>\<open>lerp(x, y)\<close>, the public overload: bilinear sample of the current buffer.\<close>

definition lerp_xy :: "FluidQuantity \<Rightarrow> real \<Rightarrow> real \<Rightarrow> real option" where
  "lerp_xy q x0 y0 =
    (let x = min (max (x0 - q_ox q) 0.0) (real_of_int (q_w q) - 1.001);
         y = min (max (y0 - q_oy q) 0.0) (real_of_int (q_h q) - 1.001);
         ix = trunc_int x;
         iy = trunc_int y;
         fx = x - real_of_int ix;
         fy = y - real_of_int iy
     in do {
       x00 \<leftarrow> at_xy q (ix + 0) (iy + 0);
       x10 \<leftarrow> at_xy q (ix + 1) (iy + 0);
       x01 \<leftarrow> at_xy q (ix + 0) (iy + 1);
       x11 \<leftarrow> at_xy q (ix + 1) (iy + 1);
       Some (lerp (lerp x00 x10 fx) (lerp x01 x11 fx) fy) })"

text \<open>\<^verbatim>\<open>cerp(x, y)\<close>, the public overload: bicubic sample of the current buffer.\<close>

definition cerp_row :: "FluidQuantity \<Rightarrow> int \<Rightarrow> int \<Rightarrow> int \<Rightarrow> int \<Rightarrow> int \<Rightarrow> real \<Rightarrow> real option" where
  "cerp_row q x0 x1 x2 x3 y fx = do {
     a \<leftarrow> at_xy q x0 y;
     b \<leftarrow> at_xy q x1 y;
     c \<leftarrow> at_xy q x2 y;
     d \<leftarrow> at_xy q x3 y;
     Some (cerp a b c d fx) }"

definition cerp_xy :: "FluidQuantity \<Rightarrow> real \<Rightarrow> real \<Rightarrow> real option" where
  "cerp_xy q xa ya =
    (let x = min (max (xa - q_ox q) 0.0) (real_of_int (q_w q) - 1.001);
         y = min (max (ya - q_oy q) 0.0) (real_of_int (q_h q) - 1.001);
         ix = trunc_int x;
         iy = trunc_int y;
         fx = x - real_of_int ix;
         fy = y - real_of_int iy;
         x0 = max (ix - 1) 0; x1 = ix; x2 = ix + 1; x3 = min (ix + 2) (q_w q - 1);
         y0 = max (iy - 1) 0; y1 = iy; y2 = iy + 1; y3 = min (iy + 2) (q_h q - 1)
     in do {
       q0 \<leftarrow> cerp_row q x0 x1 x2 x3 y0 fx;
       q1 \<leftarrow> cerp_row q x0 x1 x2 x3 y1 fx;
       q2 \<leftarrow> cerp_row q x0 x1 x2 x3 y2 fx;
       q3 \<leftarrow> cerp_row q x0 x1 x2 x3 y3 fx;
       Some (cerp q0 q1 q2 q3 fy) })"

text \<open>
  \<^verbatim>\<open>rungeKutta3(x, y, timestep, u, v)\<close>: the two reference parameters are returned as a
  pair. \<open>q\<close> is the field being advected (only its \<^verbatim>\<open>_hx\<close> is used).
\<close>

definition rungeKutta3 ::
  "FluidQuantity \<Rightarrow> real \<Rightarrow> real \<Rightarrow> real \<Rightarrow> FluidQuantity \<Rightarrow> FluidQuantity \<Rightarrow> (real \<times> real) option" where
  "rungeKutta3 q x y timestep u v = do {
     lu1 \<leftarrow> lerp_xy u x y;
     lv1 \<leftarrow> lerp_xy v x y;
     let firstU = lu1 / q_hx q;
     let firstV = lv1 / q_hx q;
     let midX = x - 0.5*timestep*firstU;
     let midY = y - 0.5*timestep*firstV;
     lu2 \<leftarrow> lerp_xy u midX midY;
     lv2 \<leftarrow> lerp_xy v midX midY;
     let midU = lu2 / q_hx q;
     let midV = lv2 / q_hx q;
     let lastX = x - 0.75*timestep*midU;
     let lastY = y - 0.75*timestep*midV;
     lastU \<leftarrow> lerp_xy u lastX lastY;
     lastV \<leftarrow> lerp_xy v lastX lastY;
     Some (x - timestep*((2.0/9.0)*firstU + (3.0/9.0)*midU + (4.0/9.0)*lastU),
           y - timestep*((2.0/9.0)*firstV + (3.0/9.0)*midV + (4.0/9.0)*lastV)) }"

text \<open>
  \<^verbatim>\<open>advect(timestep, u, v)\<close>. The loop state is the running \<^verbatim>\<open>idx\<close> and the
  \<^verbatim>\<open>_dst\<close> buffer; \<^verbatim>\<open>_src\<close> is only read.
\<close>

definition advect_cell ::
  "real \<Rightarrow> FluidQuantity \<Rightarrow> FluidQuantity \<Rightarrow> FluidQuantity \<Rightarrow> int \<Rightarrow> int \<Rightarrow>
   int \<times> real list \<Rightarrow> (int \<times> real list) option" where
  "advect_cell timestep u v q iy ix st =
    (case st of (idx, dst) \<Rightarrow> do {
       let x = real_of_int ix + q_ox q;
       let y = real_of_int iy + q_oy q;
       (x', y') \<leftarrow> rungeKutta3 q x y timestep u v;
       c \<leftarrow> cerp_xy q x' y';
       dst' \<leftarrow> wr dst idx c;
       Some (idx + 1, dst') })"

definition advect :: "real \<Rightarrow> FluidQuantity \<Rightarrow> FluidQuantity \<Rightarrow> FluidQuantity \<Rightarrow> FluidQuantity option" where
  "advect timestep u v q = do {
     (idx, dst) \<leftarrow> for_loop [0..q_h q - 1]
        (\<lambda>iy. for_loop [0..q_w q - 1] (advect_cell timestep u v q iy)) (0, q_dst q);
     Some (q\<lparr>q_dst := dst\<rparr>) }"

text \<open>\<^verbatim>\<open>flip()\<close>: swap the two buffers.\<close>

definition flip :: "FluidQuantity \<Rightarrow> FluidQuantity" where
  "flip q = q\<lparr>q_src := q_dst q, q_dst := q_src q\<rparr>"

text \<open>\<^verbatim>\<open>addInflow(x0, y0, x1, y1, v)\<close>. Both loop bounds use \<^verbatim>\<open>_h\<close>, as the source does.\<close>

definition addInflow_cell ::
  "FluidQuantity \<Rightarrow> real \<Rightarrow> real \<Rightarrow> real \<Rightarrow> real \<Rightarrow> real \<Rightarrow> int \<Rightarrow> int \<Rightarrow> real list \<Rightarrow> real list option" where
  "addInflow_cell q x0 y0 x1 y1 v y x src =
    (let l = length_xy
               ((2.0*(real_of_int x + 0.5)*q_hx q - (x0 + x1))/(x1 - x0))
               ((2.0*(real_of_int y + 0.5)*q_hx q - (y0 + y1))/(y1 - y0));
         vi = cubicPulse l * v
     in do {
       cur \<leftarrow> rd src (x + y * q_w q);
       if \<bar>cur\<bar> < \<bar>vi\<bar> then wr src (x + y * q_w q) vi else Some src })"

definition addInflow ::
  "real \<Rightarrow> real \<Rightarrow> real \<Rightarrow> real \<Rightarrow> real \<Rightarrow> FluidQuantity \<Rightarrow> FluidQuantity option" where
  "addInflow x0 y0 x1 y1 v q =
    (let ix0 = trunc_int (x0 / q_hx q - q_ox q);
         iy0 = trunc_int (y0 / q_hx q - q_oy q);
         ix1 = trunc_int (x1 / q_hx q - q_ox q);
         iy1 = trunc_int (y1 / q_hx q - q_oy q)
     in do {
       src \<leftarrow> for_loop [max iy0 0..min iy1 (q_h q) - 1]
          (\<lambda>y. for_loop [max ix0 0..min ix1 (q_h q) - 1] (addInflow_cell q x0 y0 x1 y1 v y))
          (q_src q);
       Some (q\<lparr>q_src := src\<rparr>) })"

subsection \<open>\<^verbatim>\<open>class FluidSolver\<close>\<close>

datatype ITER_TYPE = ITER_GAUSS_SEIDEL | ITER_JACOBI

record FluidSolver =
  s_d :: FluidQuantity
  s_u :: FluidQuantity
  s_v :: FluidQuantity
  s_w :: int
  s_h :: int
  s_hx :: real
  s_density :: real
  s_r :: "real list"
  s_p :: "real list"
  s_p2 :: "real list"
  iteration_type :: ITER_TYPE

text \<open>
  The line a pressure solve prints when it returns: \<^verbatim>\<open>Exiting solver after %d iterations\<close>
  with the sweep index and the last maximum change, or \<^verbatim>\<open>Exceeded budget of %d iterations\<close>
  with the limit and the last maximum change.
\<close>

datatype report = Exiting int real | Exceeded int real

text \<open>\<^verbatim>\<open>buildRhs()\<close>. The loop state is the running \<^verbatim>\<open>idx\<close> and the buffer \<^verbatim>\<open>_r\<close>.\<close>

definition buildRhs_cell ::
  "FluidSolver \<Rightarrow> real \<Rightarrow> int \<Rightarrow> int \<Rightarrow> int \<times> real list \<Rightarrow> (int \<times> real list) option" where
  "buildRhs_cell s scale y x st =
    (case st of (idx, r) \<Rightarrow> do {
       u1 \<leftarrow> at_xy (s_u s) (x + 1) y;
       u0 \<leftarrow> at_xy (s_u s) x y;
       v1 \<leftarrow> at_xy (s_v s) x (y + 1);
       v0 \<leftarrow> at_xy (s_v s) x y;
       r' \<leftarrow> wr r idx (- scale*(u1 - u0 + v1 - v0));
       Some (idx + 1, r') })"

definition buildRhs :: "FluidSolver \<Rightarrow> FluidSolver option" where
  "buildRhs s = do {
     scale \<leftarrow> fdiv 1.0 (s_hx s);
     (idx, r) \<leftarrow> for_loop [0..s_h s - 1]
        (\<lambda>y. for_loop [0..s_w s - 1] (buildRhs_cell s scale y)) (0, s_r s);
     Some (s\<lparr>s_r := r\<rparr>) }"

text \<open>
  The body both pressure solves share, up to the store of \<^verbatim>\<open>newP\<close>: the new pressure of
  cell \<open>(x, y)\<close> computed from \<^verbatim>\<open>_r\<close> and the neighbours in \<^verbatim>\<open>_p\<close>, paired with the old
  \<^verbatim>\<open>_p[idx]\<close> that \<^verbatim>\<open>maxDelta\<close> compares it with.
\<close>

definition relax_cell :: "int \<Rightarrow> int \<Rightarrow> real \<Rightarrow> real list \<Rightarrow> real list \<Rightarrow> int \<Rightarrow> int \<Rightarrow> (real \<times> real) option" where
  "relax_cell w h scale r p y x =
    (let idx = x + y*w
     in do {
       (diag1, off1) \<leftarrow>
         (if x > 0 then do { pn \<leftarrow> rd p (idx - 1); Some (0.0 + scale, 0.0 - scale*pn) }
          else Some (0.0, 0.0));
       (diag2, off2) \<leftarrow>
         (if y > 0 then do { pn \<leftarrow> rd p (idx - w); Some (diag1 + scale, off1 - scale*pn) }
          else Some (diag1, off1));
       (diag3, off3) \<leftarrow>
         (if x < w - 1 then do { pn \<leftarrow> rd p (idx + 1); Some (diag2 + scale, off2 - scale*pn) }
          else Some (diag2, off2));
       (diag, offDiag) \<leftarrow>
         (if y < h - 1 then do { pn \<leftarrow> rd p (idx + w); Some (diag3 + scale, off3 - scale*pn) }
          else Some (diag3, off3));
       ri \<leftarrow> rd r idx;
       newP \<leftarrow> fdiv (ri - offDiag) diag;
       pold \<leftarrow> rd p idx;
       Some (newP, pold) })"

text \<open>One sweep of \<^verbatim>\<open>project\<close> (in place): the loop state is \<^verbatim>\<open>_p\<close> and \<^verbatim>\<open>maxDelta\<close>.\<close>

definition project_cell ::
  "int \<Rightarrow> int \<Rightarrow> real \<Rightarrow> real list \<Rightarrow> int \<Rightarrow> int \<Rightarrow> real list \<times> real \<Rightarrow> (real list \<times> real) option" where
  "project_cell w h scale r y x st =
    (case st of (p, maxDelta) \<Rightarrow> do {
       (newP, pold) \<leftarrow> relax_cell w h scale r p y x;
       p' \<leftarrow> wr p (x + y*w) newP;
       Some (p', max maxDelta \<bar>pold - newP\<bar>) })"

definition project_sweep :: "int \<Rightarrow> int \<Rightarrow> real \<Rightarrow> real list \<Rightarrow> real list \<Rightarrow> (real list \<times> real) option" where
  "project_sweep w h scale r p =
     for_loop [0..h - 1] (\<lambda>y. for_loop [0..w - 1] (project_cell w h scale r y)) (p, 0.0)"

text \<open>
  One sweep of \<^verbatim>\<open>project_jacobi\<close>: the loop reads \<^verbatim>\<open>_p\<close> and its state is \<^verbatim>\<open>_p2\<close> and
  \<^verbatim>\<open>maxDelta\<close>; the \<^verbatim>\<open>memcpy\<close> that follows copies \<^verbatim>\<open>_w*_h\<close> cells of \<^verbatim>\<open>_p2\<close> over \<^verbatim>\<open>_p\<close>.
\<close>

definition jacobi_cell ::
  "int \<Rightarrow> int \<Rightarrow> real \<Rightarrow> real list \<Rightarrow> real list \<Rightarrow> int \<Rightarrow> int \<Rightarrow> real list \<times> real \<Rightarrow> (real list \<times> real) option" where
  "jacobi_cell w h scale r p y x st =
    (case st of (p2, maxDelta) \<Rightarrow> do {
       (newP, pold) \<leftarrow> relax_cell w h scale r p y x;
       p2' \<leftarrow> wr p2 (x + y*w) newP;
       Some (p2', max maxDelta \<bar>pold - newP\<bar>) })"

definition memcpy_cells :: "real list \<Rightarrow> real list \<Rightarrow> int \<Rightarrow> real list option" where
  "memcpy_cells dest source n =
    (if 0 \<le> n \<and> n \<le> int (length dest) \<and> n \<le> int (length source)
     then Some (take (nat n) source @ drop (nat n) dest) else None)"

definition jacobi_sweep ::
  "int \<Rightarrow> int \<Rightarrow> real \<Rightarrow> real list \<Rightarrow> real list \<times> real list \<Rightarrow> ((real list \<times> real list) \<times> real) option" where
  "jacobi_sweep w h scale r pp =
    (case pp of (p, p2) \<Rightarrow> do {
       (p2', maxDelta) \<leftarrow>
          for_loop [0..h - 1] (\<lambda>y. for_loop [0..w - 1] (jacobi_cell w h scale r p y)) (p2, 0.0);
       p' \<leftarrow> memcpy_cells p p2' (w*h);
       Some ((p', p2'), maxDelta) })"

text \<open>
  The sweep loop \<^verbatim>\<open>for (iter = 0; iter < limit; iter++)\<close> of both solves, from sweep
  \<open>iter\<close> on. \<open>sweep\<close> is the body up to the convergence test; \<open>maxDelta\<close> is \<open>None\<close>
  while the local variable is uninitialised (printing it then reads an indeterminate value).
\<close>

function sweep_loop ::
  "('p \<Rightarrow> ('p \<times> real) option) \<Rightarrow> int \<Rightarrow> int \<Rightarrow> real option \<Rightarrow> 'p \<Rightarrow> ('p \<times> report) option" where
  "sweep_loop sweep limit iter maxDelta p =
    (if iter < limit then
       (case sweep p of
          None \<Rightarrow> None
        | Some (p', maxDelta') \<Rightarrow>
            if maxDelta' < 0.00001 then Some (p', Exiting iter maxDelta')
            else sweep_loop sweep limit (iter + 1) (Some maxDelta') p')
     else (case maxDelta of
             None \<Rightarrow> None
           | Some m \<Rightarrow> Some (p, Exceeded limit m)))"
  by pat_completeness auto
termination
  by (relation "measure (\<lambda>(sweep, limit, iter, maxDelta, p). nat (limit - iter))") auto

declare sweep_loop.simps [simp del]

definition project :: "int \<Rightarrow> real \<Rightarrow> FluidSolver \<Rightarrow> (FluidSolver \<times> report) option" where
  "project limit timestep s = do {
     scale \<leftarrow> fdiv timestep (s_density s * s_hx s * s_hx s);
     (p, rep) \<leftarrow> sweep_loop (project_sweep (s_w s) (s_h s) scale (s_r s)) limit 0 None (s_p s);
     Some (s\<lparr>s_p := p\<rparr>, rep) }"

definition project_jacobi :: "int \<Rightarrow> real \<Rightarrow> FluidSolver \<Rightarrow> (FluidSolver \<times> report) option" where
  "project_jacobi limit timestep s = do {
     scale \<leftarrow> fdiv timestep (s_density s * s_hx s * s_hx s);
     ((p, p2), rep) \<leftarrow>
        sweep_loop (jacobi_sweep (s_w s) (s_h s) scale (s_r s)) limit 0 None (s_p s, s_p2 s);
     Some (s\<lparr>s_p := p, s_p2 := p2\<rparr>, rep) }"

text \<open>
  \<^verbatim>\<open>applyPressure(timestep)\<close>. \<^verbatim>\<open>at(x, y) -= a\<close> is a read followed by a write of the
  same cell. The loop state is \<^verbatim>\<open>idx\<close> and the two velocity fields.
\<close>

definition add_at :: "FluidQuantity \<Rightarrow> int \<Rightarrow> int \<Rightarrow> real \<Rightarrow> FluidQuantity option" where
  "add_at q x y a = do {
     old \<leftarrow> at_xy q x y;
     set_at q x y (old + a) }"

definition applyPressure_cell ::
  "int \<Rightarrow> real \<Rightarrow> real list \<Rightarrow> int \<Rightarrow> int \<Rightarrow>
   int \<times> FluidQuantity \<times> FluidQuantity \<Rightarrow> (int \<times> FluidQuantity \<times> FluidQuantity) option" where
  "applyPressure_cell w scale p y x st =
    (case st of (idx, u, v) \<Rightarrow> do {
       pa \<leftarrow> rd p idx;
       u1 \<leftarrow> add_at u x y (- (scale*pa));
       pb \<leftarrow> rd p idx;
       u2 \<leftarrow> add_at u1 (x + 1) y (scale*pb);
       pc \<leftarrow> rd p idx;
       v1 \<leftarrow> add_at v x y (- (scale*pc));
       pd \<leftarrow> rd p idx;
       v2 \<leftarrow> add_at v1 x (y + 1) (scale*pd);
       Some (idx + 1, u2, v2) })"

definition zero_u_walls :: "int \<Rightarrow> int \<Rightarrow> FluidQuantity \<Rightarrow> FluidQuantity option" where
  "zero_u_walls w y u = do {
     u1 \<leftarrow> set_at u w y 0.0;
     set_at u1 0 y 0.0 }"

definition zero_v_walls :: "int \<Rightarrow> int \<Rightarrow> FluidQuantity \<Rightarrow> FluidQuantity option" where
  "zero_v_walls h x v = do {
     v1 \<leftarrow> set_at v x h 0.0;
     set_at v1 x 0 0.0 }"

definition applyPressure :: "real \<Rightarrow> FluidSolver \<Rightarrow> FluidSolver option" where
  "applyPressure timestep s = do {
     scale \<leftarrow> fdiv timestep (s_density s * s_hx s);
     (idx, u, v) \<leftarrow> for_loop [0..s_h s - 1]
        (\<lambda>y. for_loop [0..s_w s - 1] (applyPressure_cell (s_w s) scale (s_p s) y))
        (0, s_u s, s_v s);
     u' \<leftarrow> for_loop [0..s_h s - 1] (zero_u_walls (s_w s)) u;
     v' \<leftarrow> for_loop [0..s_w s - 1] (zero_v_walls (s_h s)) v;
     Some (s\<lparr>s_u := u', s_v := v'\<rparr>) }"

text \<open>
  The constructors. Their result is a sum: \<open>Inr\<close> the object built, \<open>Inl\<close> the reason
  there is none in this model.
  \<^item> \<open>BadArrayLength\<close>: \<^verbatim>\<open>new double[n]\<close> was given a negative \<open>n\<close> and threw.
  \<^item> \<open>SignedOverflow\<close>: a product or sum of \<^verbatim>\<open>int\<close>s left the 32-bit range.
  \<^item> \<open>OutsideBuffer\<close>: \<^verbatim>\<open>memset\<close> was asked to write past the array.
  \<^item> \<open>InfiniteCellSize\<close>: nothing threw, but \<^verbatim>\<open>1.0/min(w, h)\<close> divided by zero, so the
    solver the code returns has an infinite cell size, which no \<^typ>\<open>real\<close> represents.
  An array that \<^verbatim>\<open>new double[n]\<close> returns has \<open>n\<close> cells of indeterminate content, given
  here by \<open>garbage\<close>; \<^verbatim>\<open>memset(buf, 0, n*sizeof(double))\<close> zeroes the first \<open>n\<close> cells.
\<close>

datatype unbuilt = BadArrayLength | SignedOverflow | OutsideBuffer | InfiniteCellSize

definition int32 :: "int \<Rightarrow> bool" where
  "int32 n = (- 2147483648 \<le> n \<and> n \<le> 2147483647)"

definition mul32 :: "int \<Rightarrow> int \<Rightarrow> unbuilt + int" where
  "mul32 a b = (if int32 (a*b) then Inr (a*b) else Inl SignedOverflow)"

definition add32 :: "int \<Rightarrow> int \<Rightarrow> unbuilt + int" where
  "add32 a b = (if int32 (a + b) then Inr (a + b) else Inl SignedOverflow)"

text \<open>Sequencing: the first step that yields no value ends the construction.\<close>

definition and_then :: "unbuilt + 'a \<Rightarrow> ('a \<Rightarrow> unbuilt + 'b) \<Rightarrow> unbuilt + 'b" where
  "and_then m f = (case m of Inl e \<Rightarrow> Inl e | Inr a \<Rightarrow> f a)"

definition new_array :: "(nat \<Rightarrow> real) \<Rightarrow> int \<Rightarrow> unbuilt + real list" where
  "new_array garbage n = (if n < 0 then Inl BadArrayLength else Inr (map garbage [0..<nat n]))"

definition memset_zero :: "real list \<Rightarrow> int \<Rightarrow> unbuilt + real list" where
  "memset_zero buf n =
    (if 0 \<le> n \<and> n \<le> int (length buf) then Inr (replicate (nat n) 0 @ drop (nat n) buf)
     else Inl OutsideBuffer)"

definition FluidQuantity_new ::
  "(nat \<Rightarrow> real) \<Rightarrow> int \<Rightarrow> int \<Rightarrow> real \<Rightarrow> real \<Rightarrow> real \<Rightarrow> unbuilt + FluidQuantity" where
  "FluidQuantity_new garbage w h ox oy hx =
     and_then (mul32 w h) (\<lambda>n1.
     and_then (new_array garbage n1) (\<lambda>src.
     and_then (mul32 w h) (\<lambda>n2.
     and_then (new_array garbage n2) (\<lambda>dst.
     and_then (mul32 w h) (\<lambda>n3.
     and_then (memset_zero src n3) (\<lambda>src0.
     Inr \<lparr>q_src = src0, q_dst = dst, q_w = w, q_h = h, q_ox = ox, q_oy = oy, q_hx = hx\<rparr>))))))"

text \<open>
  \<open>hx\<close> below is the cell size whenever \<open>min w h\<close> is not 0; when it is 0 the result is
  \<open>InfiniteCellSize\<close> (or an earlier failure) and \<open>hx\<close> is not used.
\<close>

definition FluidSolver_new :: "(nat \<Rightarrow> real) \<Rightarrow> int \<Rightarrow> int \<Rightarrow> real \<Rightarrow> unbuilt + FluidSolver" where
  "FluidSolver_new garbage w h density =
    (let hx = 1.0 / real_of_int (min w h)
     in and_then (FluidQuantity_new garbage w h 0.5 0.5 hx) (\<lambda>d.
        and_then (add32 w 1) (\<lambda>w1.
        and_then (FluidQuantity_new garbage w1 h 0.0 0.5 hx) (\<lambda>u.
        and_then (add32 h 1) (\<lambda>h1.
        and_then (FluidQuantity_new garbage w h1 0.5 0.0 hx) (\<lambda>v.
        and_then (mul32 w h) (\<lambda>nr.
        and_then (new_array garbage nr) (\<lambda>r.
        and_then (mul32 w h) (\<lambda>np.
        and_then (new_array garbage np) (\<lambda>p.
        and_then (mul32 w h) (\<lambda>np0.
        and_then (memset_zero p np0) (\<lambda>p0.
        and_then (mul32 w h) (\<lambda>nq.
        and_then (new_array garbage nq) (\<lambda>p2.
        and_then (mul32 w h) (\<lambda>nq0.
        and_then (memset_zero p2 nq0) (\<lambda>p20.
        if min w h = 0 then Inl InfiniteCellSize
        else Inr \<lparr>s_d = d, s_u = u, s_v = v, s_w = w, s_h = h, s_hx = hx, s_density = density,
                   s_r = r, s_p = p0, s_p2 = p20, iteration_type = ITER_JACOBI\<rparr>))))))))))))))))"

text \<open>\<^verbatim>\<open>update(timestep)\<close>, returning the new solver and the line the solve printed.\<close>

definition update :: "real \<Rightarrow> FluidSolver \<Rightarrow> (FluidSolver \<times> report) option" where
  "update timestep s0 = do {
     s1 \<leftarrow> buildRhs s0;
     (s2, rep) \<leftarrow> (if iteration_type s1 = ITER_JACOBI then project_jacobi 600 timestep s1
                   else project 600 timestep s1);
     s3 \<leftarrow> applyPressure timestep s2;
     d \<leftarrow> advect timestep (s_u s3) (s_v s3) (s_d s3);
     u \<leftarrow> advect timestep (s_u s3) (s_v s3) (s_u s3);
     v \<leftarrow> advect timestep u (s_v s3) (s_v s3);
     Some (s3\<lparr>s_d := flip d, s_u := flip u, s_v := flip v\<rparr>, rep) }"

text \<open>\<^verbatim>\<open>FluidSolver::addInflow(x, y, w, h, d, u, v)\<close>.\<close>

definition solver_addInflow ::
  "real \<Rightarrow> real \<Rightarrow> real \<Rightarrow> real \<Rightarrow> real \<Rightarrow> real \<Rightarrow> real \<Rightarrow> FluidSolver \<Rightarrow> FluidSolver option" where
  "solver_addInflow x y w h d u v s = do {
     d' \<leftarrow> addInflow x y (x + w) (y + h) d (s_d s);
     u' \<leftarrow> addInflow x y (x + w) (y + h) u (s_u s);
     v' \<leftarrow> addInflow x y (x + w) (y + h) v (s_v s);
     Some (s\<lparr>s_d := d', s_u := u', s_v := v'\<rparr>) }"

subsection \<open>Views of the pressure solve\<close>

text \<open>
  The sweep \<^verbatim>\<open>update\<close> runs on the pair \<open>(_p, _p2)\<close>, chosen by \<^verbatim>\<open>iteration_type\<close>:
  the double-buffered sweep of \<^verbatim>\<open>project_jacobi\<close>, or the in-place sweep of \<^verbatim>\<open>project\<close>,
  which leaves \<^verbatim>\<open>_p2\<close> alone.
\<close>

definition pressure_sweep ::
  "real \<Rightarrow> FluidSolver \<Rightarrow> real list \<times> real list \<Rightarrow> ((real list \<times> real list) \<times> real) option" where
  "pressure_sweep timestep s pp = do {
     scale \<leftarrow> fdiv timestep (s_density s * s_hx s * s_hx s);
     if iteration_type s = ITER_JACOBI then jacobi_sweep (s_w s) (s_h s) scale (s_r s) pp
     else (case project_sweep (s_w s) (s_h s) scale (s_r s) (fst pp) of
             None \<Rightarrow> None
           | Some (p', d) \<Rightarrow> Some ((p', snd pp), d)) }"

text \<open>The state after \<open>n\<close> sweeps, and the maximum change of sweep number \<open>n\<close> (from 0).\<close>

fun sweeps :: "('p \<Rightarrow> ('p \<times> real) option) \<Rightarrow> nat \<Rightarrow> 'p \<Rightarrow> 'p option" where
  "sweeps sweep 0 p = Some p"
| "sweeps sweep (Suc n) p = (case sweep p of None \<Rightarrow> None | Some (p', d) \<Rightarrow> sweeps sweep n p')"

fun sweep_delta :: "('p \<Rightarrow> ('p \<times> real) option) \<Rightarrow> nat \<Rightarrow> 'p \<Rightarrow> real option" where
  "sweep_delta sweep 0 p = (case sweep p of None \<Rightarrow> None | Some (p', d) \<Rightarrow> Some d)"
| "sweep_delta sweep (Suc n) p =
     (case sweep p of None \<Rightarrow> None | Some (p', d) \<Rightarrow> sweep_delta sweep n p')"

text \<open>
  The value \<^verbatim>\<open>advect\<close> stores for grid point \<open>(ix, iy)\<close>: the bicubic sample at the
  traced-back position (the two statements of the inner loop body before the store).
\<close>

definition advect_value ::
  "real \<Rightarrow> FluidQuantity \<Rightarrow> FluidQuantity \<Rightarrow> FluidQuantity \<Rightarrow> int \<Rightarrow> int \<Rightarrow> real option" where
  "advect_value timestep u v q iy ix = do {
     (x', y') \<leftarrow> rungeKutta3 q (real_of_int ix + q_ox q) (real_of_int iy + q_oy q) timestep u v;
     cerp_xy q x' y' }"

text \<open>
  The first half of \<^verbatim>\<open>update\<close>, under a name: \<^verbatim>\<open>buildRhs\<close>, the pressure solve and
  \<^verbatim>\<open>applyPressure\<close>.
\<close>

definition project_step :: "real \<Rightarrow> FluidSolver \<Rightarrow> (FluidSolver \<times> report) option" where
  "project_step timestep s0 = do {
     s1 \<leftarrow> buildRhs s0;
     (s2, rep) \<leftarrow> (if iteration_type s1 = ITER_JACOBI then project_jacobi 600 timestep s1
                   else project 600 timestep s1);
     s3 \<leftarrow> applyPressure timestep s2;
     Some (s3, rep) }"

text \<open>
  The second half of \<^verbatim>\<open>update\<close>, under a name: the three advections and the three
  buffer flips that follow \<^verbatim>\<open>applyPressure\<close>.
\<close>

definition advect_fields :: "real \<Rightarrow> FluidSolver \<Rightarrow> FluidSolver option" where
  "advect_fields timestep s3 = do {
     d \<leftarrow> advect timestep (s_u s3) (s_v s3) (s_d s3);
     u \<leftarrow> advect timestep (s_u s3) (s_v s3) (s_u s3);
     v \<leftarrow> advect timestep u (s_v s3) (s_v s3);
     Some (s3\<lparr>s_d := flip d, s_u := flip u, s_v := flip v\<rparr>) }"

text \<open>
  The clamp both samplers apply to a grid coordinate, \<^verbatim>\<open>min(max(a, 0.0), dim - 1.001)\<close>,
  under a name.
\<close>

definition clamp_coord :: "real \<Rightarrow> int \<Rightarrow> real" where
  "clamp_coord a n = min (max a 0.0) (real_of_int n - 1.001)"

subsection \<open>Well-formed fields\<close>

text \<open>
  A field whose two buffers have \<open>_w*_h\<close> cells, as the constructor allocates them, and
  with at least two columns and two rows, so that the clamp to \<open>[0, dim - 1.001]\<close> of
  the samplers leaves a non-negative coordinate.
\<close>

definition wf_field :: "FluidQuantity \<Rightarrow> bool" where
  "wf_field q = (2 \<le> q_w q \<and> 2 \<le> q_h q \<and>
     length (q_src q) = nat (q_w q * q_h q) \<and> length (q_dst q) = nat (q_w q * q_h q))"

text \<open>
  A solver as the constructor lays it out, for a grid of at least \<open>2\<times>2\<close> cells and a
  positive fluid density: density field \<open>w\<times>h\<close> sampled at cell centres, x-velocity
  \<open>(w+1)\<times>h\<close> sampled at vertical faces, y-velocity \<open>w\<times>(h+1)\<close> sampled at horizontal faces,
  all three with the solver's positive cell size, and three scratch arrays of \<open>w*h\<close> cells.
\<close>

definition wf_solver :: "FluidSolver \<Rightarrow> bool" where
  "wf_solver s =
    (2 \<le> s_w s \<and> 2 \<le> s_h s \<and> 0 < s_hx s \<and> 0 < s_density s \<and>
     wf_field (s_d s) \<and> q_w (s_d s) = s_w s \<and> q_h (s_d s) = s_h s \<and>
     q_ox (s_d s) = 0.5 \<and> q_oy (s_d s) = 0.5 \<and> q_hx (s_d s) = s_hx s \<and>
     wf_field (s_u s) \<and> q_w (s_u s) = s_w s + 1 \<and> q_h (s_u s) = s_h s \<and>
     q_ox (s_u s) = 0.0 \<and> q_oy (s_u s) = 0.5 \<and> q_hx (s_u s) = s_hx s \<and>
     wf_field (s_v s) \<and> q_w (s_v s) = s_w s \<and> q_h (s_v s) = s_h s + 1 \<and>
     q_ox (s_v s) = 0.5 \<and> q_oy (s_v s) = 0.0 \<and> q_hx (s_v s) = s_hx s \<and>
     length (s_r s) = nat (s_w s * s_h s) \<and>
     length (s_p s) = nat (s_w s * s_h s) \<and>
     length (s_p2 s) = nat (s_w s * s_h s))"

text \<open>Dimensions for which every array size the constructor computes fits an \<^verbatim>\<open>int\<close>.\<close>

definition sizes_fit :: "int \<Rightarrow> int \<Rightarrow> bool" where
  "sizes_fit w h =
    (int32 (w*h) \<and> int32 (w + 1) \<and> int32 ((w + 1)*h) \<and> int32 (h + 1) \<and> int32 (w*(h + 1)))"

text \<open>Predicates on intermediate states: buffers of the right size, and a field that
  differs from another in the content of its current buffer only.\<close>

definition pp_ok :: "FluidSolver \<Rightarrow> real list \<times> real list \<Rightarrow> bool" where
  "pp_ok s pp = (length (fst pp) = nat (s_w s * s_h s) \<and> length (snd pp) = nat (s_w s * s_h s))"

definition same_shape :: "FluidQuantity \<Rightarrow> FluidQuantity \<Rightarrow> bool" where
  "same_shape q q' = (q' = q\<lparr>q_src := q_src q'\<rparr> \<and> length (q_src q') = length (q_src q))"

text \<open>The relation between a buffer and a later state of it under a max-blend: same
  size, and each cell unchanged or of strictly greater magnitude.\<close>

definition blended :: "real list \<Rightarrow> real list \<Rightarrow> bool" where
  "blended src0 src = (length src = length src0 \<and>
     (\<forall>i < length src0. src ! i = src0 ! i \<or> \<bar>src0 ! i\<bar> < \<bar>src ! i\<bar>))"

subsection \<open>The backward trace as the specification words it\<close>

text \<open>
  Written from the specification, for comparison with \<open>rungeKutta3\<close>: three velocity
  samples, \<^emph>\<open>each\<close> divided by the cell size, combined with the weights 2/9, 3/9, 4/9.
\<close>

definition rungeKutta3_as_specified ::
  "FluidQuantity \<Rightarrow> real \<Rightarrow> real \<Rightarrow> real \<Rightarrow> FluidQuantity \<Rightarrow> FluidQuantity \<Rightarrow> (real \<times> real) option" where
  "rungeKutta3_as_specified q x y timestep u v = do {
     lu1 \<leftarrow> lerp_xy u x y;
     lv1 \<leftarrow> lerp_xy v x y;
     let firstU = lu1 / q_hx q;
     let firstV = lv1 / q_hx q;
     lu2 \<leftarrow> lerp_xy u (x - 0.5*timestep*firstU) (y - 0.5*timestep*firstV);
     lv2 \<leftarrow> lerp_xy v (x - 0.5*timestep*firstU) (y - 0.5*timestep*firstV);
     let midU = lu2 / q_hx q;
     let midV = lv2 / q_hx q;
     lu3 \<leftarrow> lerp_xy u (x - 0.75*timestep*midU) (y - 0.75*timestep*midV);
     lv3 \<leftarrow> lerp_xy v (x - 0.75*timestep*midU) (y - 0.75*timestep*midV);
     let lastU = lu3 / q_hx q;
     let lastV = lv3 / q_hx q;
     Some (x - timestep*((2.0/9.0)*firstU + (3.0/9.0)*midU + (4.0/9.0)*lastU),
           y - timestep*((2.0/9.0)*firstV + (3.0/9.0)*midV + (4.0/9.0)*lastV)) }"

subsection \<open>Concrete fields and solvers\<close>

text \<open>
  Fields of a \<open>2\<times>2\<close> solver (cell size \<open>1/2\<close>): a density-like field with samples at cell
  centres, an x-velocity field (\<open>3\<times>2\<close>) that is 1 on its interior column and 0 on the
  walls, and a y-velocity field (\<open>2\<times>3\<close>) at rest.
\<close>

definition corner_field :: FluidQuantity where
  "corner_field = \<lparr>q_src = [3, 0, 0, 1], q_dst = [0, 0, 0, 0], q_w = 2, q_h = 2,
     q_ox = 0.5, q_oy = 0.5, q_hx = 0.5\<rparr>"

definition shear_u :: FluidQuantity where
  "shear_u = \<lparr>q_src = [0, 1, 0, 0, 1, 0], q_dst = [0, 0, 0, 0, 0, 0], q_w = 3, q_h = 2,
     q_ox = 0.0, q_oy = 0.5, q_hx = 0.5\<rparr>"

definition still_v :: FluidQuantity where
  "still_v = \<lparr>q_src = [0, 0, 0, 0, 0, 0], q_dst = [0, 0, 0, 0, 0, 0], q_w = 2, q_h = 3,
     q_ox = 0.5, q_oy = 0.0, q_hx = 0.5\<rparr>"

text \<open>
  Three \<open>2\<times>2\<close> solvers with density 1, zero pressure and walls at rest: one whose interior
  faces carry a divergence-free rotation, one with flow across the single face between
  cells \<open>(0, 0)\<close> and \<open>(1, 0)\<close>, and one with flow across that face and across the face
  between cells \<open>(1, 0)\<close> and \<open>(1, 1)\<close>.
\<close>

definition rotating_solver :: FluidSolver where
  "rotating_solver =
     \<lparr>s_d = \<lparr>q_src = [1, 0, 0, 0], q_dst = [0, 0, 0, 0], q_w = 2, q_h = 2,
              q_ox = 0.5, q_oy = 0.5, q_hx = 0.5\<rparr>,
      s_u = \<lparr>q_src = [0, 1, 0, 0, -1, 0], q_dst = [0, 0, 0, 0, 0, 0], q_w = 3, q_h = 2,
              q_ox = 0.0, q_oy = 0.5, q_hx = 0.5\<rparr>,
      s_v = \<lparr>q_src = [0, 0, -1, 1, 0, 0], q_dst = [0, 0, 0, 0, 0, 0], q_w = 2, q_h = 3,
              q_ox = 0.5, q_oy = 0.0, q_hx = 0.5\<rparr>,
      s_w = 2, s_h = 2, s_hx = 0.5, s_density = 1,
      s_r = [0, 0, 0, 0], s_p = [0, 0, 0, 0], s_p2 = [0, 0, 0, 0],
      iteration_type = ITER_JACOBI\<rparr>"


definition jet_solver :: FluidSolver where
  "jet_solver =
     \<lparr>s_d = \<lparr>q_src = [0, 0, 0, 0], q_dst = [0, 0, 0, 0], q_w = 2, q_h = 2,
              q_ox = 0.5, q_oy = 0.5, q_hx = 0.5\<rparr>,
      s_u = \<lparr>q_src = [0, 1, 0, 0, 0, 0], q_dst = [0, 0, 0, 0, 0, 0], q_w = 3, q_h = 2,
              q_ox = 0.0, q_oy = 0.5, q_hx = 0.5\<rparr>,
      s_v = \<lparr>q_src = [0, 0, 0, 1, 0, 0], q_dst = [0, 0, 0, 0, 0, 0], q_w = 2, q_h = 3,
              q_ox = 0.5, q_oy = 0.0, q_hx = 0.5\<rparr>,
      s_w = 2, s_h = 2, s_hx = 0.5, s_density = 1,
      s_r = [0, 0, 0, 0], s_p = [0, 0, 0, 0], s_p2 = [0, 0, 0, 0],
      iteration_type = ITER_JACOBI\<rparr>"

section \<open>Properties\<close>

subsection \<open>Loops and buffers\<close>


lemma for_loop_append:
  "for_loop (xs @ ys) body s =
     (case for_loop xs body s of None \<Rightarrow> None | Some s' \<Rightarrow> for_loop ys body s')"
  by (induction xs arbitrary: s) (auto split: option.splits)

lemma for_loop_map:
  "for_loop (map f xs) body s = for_loop xs (\<lambda>x. body (f x)) s"
  by (induction xs arbitrary: s) (auto split: option.splits)

lemma for_loop_product:
  "for_loop ys (\<lambda>y. for_loop xs (body y)) s =
   for_loop (List.product ys xs) (\<lambda>c. body (fst c) (snd c)) s"
  by (induction ys arbitrary: s) (auto simp: for_loop_append for_loop_map split: option.splits)

lemma for_loop_inv:
  assumes step: "\<And>k s. k < length xs \<Longrightarrow> I k s \<Longrightarrow> \<exists>s'. body (xs ! k) s = Some s' \<and> I (Suc k) s'"
    and init: "I 0 s"
  shows "\<exists>s'. for_loop xs body s = Some s' \<and> I (length xs) s'"
  using assms
proof (induction xs arbitrary: s I)
  case Nil
  then show ?case by simp
next
  case (Cons x xs)
  from Cons.prems(1)[of 0 s] Cons.prems(2)
  obtain s1 where s1: "body x s = Some s1" "I (Suc 0) s1" by auto
  have "\<exists>s'. for_loop xs body s1 = Some s' \<and> (\<lambda>k. I (Suc k)) (length xs) s'"
  proof (rule Cons.IH)
    fix k t assume "k < length xs" "I (Suc k) t"
    with Cons.prems(1)[of "Suc k" t] show "\<exists>s'. body (xs ! k) t = Some s' \<and> I (Suc (Suc k)) s'"
      by simp
  next
    show "I (Suc 0) s1" by (rule s1)
  qed
  with s1 show ?case by simp
qed

lemma for_loop_rel:
  assumes step: "\<And>x s s'. x \<in> set xs \<Longrightarrow> R s \<Longrightarrow> body x s = Some s' \<Longrightarrow> R s'"
    and init: "R s" and run: "for_loop xs body s = Some t"
  shows "R t"
  using assms
  by (induction xs arbitrary: s) (auto split: option.splits)

lemma length_upto0: "length [0..n - 1] = nat n"
  by simp

lemma nth_upto0: "k < nat n \<Longrightarrow> [0..n - 1] ! k = int k"
  by (simp add: nth_upto)

lemma cells_length: "length (List.product [0..h - 1] [0..w - 1]) = nat h * nat w"
  by simp

lemma cells_nth:
  assumes "k < nat h * nat w"
  shows "List.product [0..h - 1] [0..w - 1] ! k = (int (k div nat w), int (k mod nat w))"
proof -
  have w: "0 < nat w" using assms by (cases "nat w") auto
  have d: "k div nat w < nat h" using assms w
    by (simp add: less_mult_imp_div_less)
  have m: "k mod nat w < nat w" using w by simp
  show ?thesis
    using assms d m by (simp add: List.product_nth nth_upto0)
qed

lemma cell_index:
  assumes "0 \<le> x" "x < w" "0 \<le> y" "y < (h::int)"
  shows "0 \<le> x + y*w \<and> x + y*w < w*h"
proof -
  have "y*w \<le> (h - 1)*w" using assms by (intro mult_right_mono) auto
  then have "x + y*w < w + (h - 1)*w" using assms by linarith
  also have "\<dots> = w*h" by (simp add: algebra_simps)
  finally show ?thesis using assms by simp
qed

lemma rd_Some: "0 \<le> i \<Longrightarrow> i < int (length buf) \<Longrightarrow> rd buf i = Some (buf ! nat i)"
  by (simp add: rd_def)

lemma rd_SomeD: "rd buf i = Some a \<Longrightarrow> 0 \<le> i \<and> i < int (length buf) \<and> a = buf ! nat i"
  by (auto simp: rd_def split: if_splits)

lemma wr_Some: "0 \<le> i \<Longrightarrow> i < int (length buf) \<Longrightarrow> wr buf i v = Some (buf[nat i := v])"
  by (simp add: wr_def)

lemma wr_SomeD: "wr buf i v = Some b \<Longrightarrow> 0 \<le> i \<and> i < int (length buf) \<and> b = buf[nat i := v]"
  by (auto simp: wr_def split: if_splits)

lemma at_xy_Some:
  assumes "wf_field q" "0 \<le> x" "x < q_w q" "0 \<le> y" "y < q_h q"
  shows "at_xy q x y = Some (q_src q ! nat (x + y * q_w q)) \<and> q_src q ! nat (x + y * q_w q) \<in> set (q_src q)"
proof -
  from cell_index[OF assms(2-5)] have i: "0 \<le> x + y * q_w q" "x + y * q_w q < q_w q * q_h q" by auto
  with assms(1) have "x + y * q_w q < int (length (q_src q))" by (simp add: wf_field_def)
  with i show ?thesis by (simp add: at_xy_def rd_Some)
qed

lemma clamp_cell:
  fixes a :: real and w :: int
  assumes "2 \<le> w"
  defines "x \<equiv> min (max a 0) (real_of_int w - 1.001)"
  shows "0 \<le> trunc_int x" "trunc_int x \<le> w - 2" "trunc_int x = \<lfloor>x\<rfloor>" "0 \<le> x" "x < real_of_int w - 1"
proof -
  have w: "2 \<le> real_of_int w" using assms(1) by simp
  show x0: "0 \<le> x" unfolding x_def using w by simp
  show x1: "x < real_of_int w - 1" unfolding x_def by simp
  show t: "trunc_int x = \<lfloor>x\<rfloor>" using x0 by (simp add: trunc_int_def)
  show "0 \<le> trunc_int x" using x0 t by simp
  have "\<lfloor>x\<rfloor> < w - 1" using x1 by (simp add: floor_less_iff)
  then show "trunc_int x \<le> w - 2" using t by simp
qed

lemma lerp_xy_total:
  assumes "wf_field q"
  shows "\<exists>a. lerp_xy q x y = Some a"
proof -
  have w: "2 \<le> q_w q" and h: "2 \<le> q_h q" using assms by (auto simp: wf_field_def)
  note cx = clamp_cell[OF w, of "x - q_ox q"] and cy = clamp_cell[OF h, of "y - q_oy q"]
  show ?thesis
    unfolding lerp_xy_def Let_def
    using cx(1,2) cy(1,2)
    by (simp add: at_xy_Some[OF assms])
qed


subsection \<open>Clamped cubic interpolation\<close>

lemma cerp_bounds:
  "min a (min b (min c d)) \<le> cerp a b c d x \<and> cerp a b c d x \<le> max a (max b (max c d))"
  unfolding cerp_def Let_def by (simp add: min_def max_def)

text \<open>
  C5. For samples \<open>a \<le> b \<le> c \<le> d\<close> and a parameter \<open>x\<close> in \<open>[0, 1]\<close>, the one-dimensional
  Catmull-Rom interpolation \<^verbatim>\<open>cerp(a, b, c, d, x)\<close> returns a value between the least and
  the greatest of its four samples. (The order of the samples and the range of \<open>x\<close> play
  no part: the final clamp gives the bound for all inputs, see \<open>cerp_bounds\<close>.)
\<close>

theorem cerp_within_samples:
  assumes "a \<le> b" and "b \<le> c" and "c \<le> d" and "0 \<le> x" and "x \<le> 1"
  shows "min a (min b (min c d)) \<le> cerp a b c d x \<and> cerp a b c d x \<le> max a (max b (max c d))"
  by (rule cerp_bounds)

theorem cerp_within_samples_witness:
  "(0::real) \<le> 1 \<and> (1::real) \<le> 2 \<and> (2::real) \<le> 10 \<and> (0::real) \<le> 1/2 \<and> (1/2::real) \<le> 1 \<and>
   min 0 (min 1 (min 2 10)) \<le> cerp 0 1 2 10 (1/2) \<and>
   cerp 0 1 2 10 (1/2) \<le> max 0 (max 1 (max 2 10))"
  using cerp_within_samples [of 0 1 2 10 "1/2"] by simp

subsection \<open>Sampling and advection of a well-formed field\<close>


lemma cerp_row_bounds:
  assumes wf: "wf_field q"
    and bd: "\<forall>a\<in>set (q_src q). lo \<le> a \<and> a \<le> hi"
    and x: "0 \<le> x0" "x0 < q_w q" "0 \<le> x1" "x1 < q_w q" "0 \<le> x2" "x2 < q_w q" "0 \<le> x3" "x3 < q_w q"
    and y: "0 \<le> y" "y < q_h q"
  shows "\<exists>c. cerp_row q x0 x1 x2 x3 y fx = Some c \<and> lo \<le> c \<and> c \<le> hi"
proof -
  obtain a where a: "at_xy q x0 y = Some a" "a \<in> set (q_src q)"
    using at_xy_Some[OF wf x(1,2) y] by blast
  obtain b where b: "at_xy q x1 y = Some b" "b \<in> set (q_src q)"
    using at_xy_Some[OF wf x(3,4) y] by blast
  obtain c where c: "at_xy q x2 y = Some c" "c \<in> set (q_src q)"
    using at_xy_Some[OF wf x(5,6) y] by blast
  obtain d where d: "at_xy q x3 y = Some d" "d \<in> set (q_src q)"
    using at_xy_Some[OF wf x(7,8) y] by blast
  have "lo \<le> min a (min b (min c d))" "max a (max b (max c d)) \<le> hi"
    using bd a(2) b(2) c(2) d(2) by auto
  with cerp_bounds[of a b c d fx]
  have "lo \<le> cerp a b c d fx \<and> cerp a b c d fx \<le> hi" by linarith
  then show ?thesis by (simp add: cerp_row_def a b c d)
qed

lemma cerp_xy_bounds:
  assumes wf: "wf_field q"
    and bd: "\<forall>a\<in>set (q_src q). lo \<le> a \<and> a \<le> hi"
  shows "\<exists>c. cerp_xy q x y = Some c \<and> lo \<le> c \<and> c \<le> hi"
proof -
  have w: "2 \<le> q_w q" and h: "2 \<le> q_h q" using wf by (auto simp: wf_field_def)
  define cx where "cx = min (max (x - q_ox q) 0) (real_of_int (q_w q) - 1.001)"
  define cy where "cy = min (max (y - q_oy q) 0) (real_of_int (q_h q) - 1.001)"
  define ix where "ix = trunc_int cx"
  define iy where "iy = trunc_int cy"
  have ix: "0 \<le> ix" "ix \<le> q_w q - 2"
    using clamp_cell(1,2)[OF w, of "x - q_ox q"] by (auto simp: ix_def cx_def)
  have iy: "0 \<le> iy" "iy \<le> q_h q - 2"
    using clamp_cell(1,2)[OF h, of "y - q_oy q"] by (auto simp: iy_def cy_def)
  have row: "\<exists>c. cerp_row q (max (ix - 1) 0) ix (ix + 1) (min (ix + 2) (q_w q - 1)) yy (cx - real_of_int ix) = Some c
      \<and> lo \<le> c \<and> c \<le> hi" if "0 \<le> yy" "yy < q_h q" for yy
    using ix w that by (intro cerp_row_bounds[OF wf bd]) auto
  obtain q0 where q0: "cerp_row q (max (ix - 1) 0) ix (ix + 1) (min (ix + 2) (q_w q - 1)) (max (iy - 1) 0) (cx - real_of_int ix) = Some q0"
      "lo \<le> q0" "q0 \<le> hi" using row[of "max (iy - 1) 0"] iy h by auto
  obtain q1 where q1: "cerp_row q (max (ix - 1) 0) ix (ix + 1) (min (ix + 2) (q_w q - 1)) iy (cx - real_of_int ix) = Some q1"
      "lo \<le> q1" "q1 \<le> hi" using row[of iy] iy h by auto
  obtain q2 where q2: "cerp_row q (max (ix - 1) 0) ix (ix + 1) (min (ix + 2) (q_w q - 1)) (iy + 1) (cx - real_of_int ix) = Some q2"
      "lo \<le> q2" "q2 \<le> hi" using row[of "iy + 1"] iy h by auto
  obtain q3 where q3: "cerp_row q (max (ix - 1) 0) ix (ix + 1) (min (ix + 2) (q_w q - 1)) (min (iy + 2) (q_h q - 1)) (cx - real_of_int ix) = Some q3"
      "lo \<le> q3" "q3 \<le> hi"
  proof -
    have "0 \<le> min (iy + 2) (q_h q - 1)" "min (iy + 2) (q_h q - 1) < q_h q" using iy h by auto
    from row[OF this] that show ?thesis by blast
  qed
  have "lo \<le> min q0 (min q1 (min q2 q3))" "max q0 (max q1 (max q2 q3)) \<le> hi"
    using q0 q1 q2 q3 by auto
  with cerp_bounds[of q0 q1 q2 q3 "cy - real_of_int iy"]
  have "lo \<le> cerp q0 q1 q2 q3 (cy - real_of_int iy) \<and> cerp q0 q1 q2 q3 (cy - real_of_int iy) \<le> hi"
    by linarith
  moreover have "cerp_xy q x y = Some (cerp q0 q1 q2 q3 (cy - real_of_int iy))"
    using q0(1) q1(1) q2(1) q3(1)
    unfolding cerp_xy_def Let_def ix_def iy_def cx_def cy_def
    by simp
  ultimately show ?thesis by blast
qed

lemma rungeKutta3_total:
  assumes "wf_field u" "wf_field v"
  shows "\<exists>p. rungeKutta3 q x y timestep u v = Some p"
proof -
  have "\<exists>f. \<forall>x y. lerp_xy u x y = Some (f x y)"
    using lerp_xy_total[OF assms(1)] by metis
  then obtain fu where fu: "\<And>x y. lerp_xy u x y = Some (fu x y)" by blast
  have "\<exists>f. \<forall>x y. lerp_xy v x y = Some (f x y)"
    using lerp_xy_total[OF assms(2)] by metis
  then obtain fv where fv: "\<And>x y. lerp_xy v x y = Some (fv x y)" by blast
  show ?thesis
    unfolding rungeKutta3_def by (simp add: fu fv Let_def)
qed

lemma advect_value_bounds:
  assumes "wf_field u" "wf_field v" "wf_field q"
    and bd: "\<forall>a\<in>set (q_src q). lo \<le> a \<and> a \<le> hi"
  shows "\<exists>c. advect_value timestep u v q iy ix = Some c \<and> lo \<le> c \<and> c \<le> hi"
proof -
  obtain x' y' where p: "rungeKutta3 q (real_of_int ix + q_ox q) (real_of_int iy + q_oy q) timestep u v = Some (x', y')"
    using rungeKutta3_total[OF assms(1,2)] by (metis surj_pair)
  from cerp_xy_bounds[OF assms(3) bd, of x' y'] p show ?thesis
    by (simp add: advect_value_def)
qed

lemma advect_cell_value:
  "advect_cell timestep u v q iy ix (idx, dst) =
     (case advect_value timestep u v q iy ix of
        None \<Rightarrow> None
      | Some c \<Rightarrow> (case wr dst idx c of None \<Rightarrow> None | Some dst' \<Rightarrow> Some (idx + 1, dst')))"
  by (auto simp: advect_cell_def advect_value_def Let_def split: option.splits Option.bind_splits)

lemma advect_result:
  assumes wf: "wf_field q"
    and val: "\<And>iy ix. 0 \<le> iy \<Longrightarrow> iy < q_h q \<Longrightarrow> 0 \<le> ix \<Longrightarrow> ix < q_w q \<Longrightarrow>
                \<exists>c. advect_value timestep u v q iy ix = Some c \<and> P c"
  shows "\<exists>dst'. advect timestep u v q = Some (q\<lparr>q_dst := dst'\<rparr>) \<and>
           length dst' = length (q_dst q) \<and>
           (\<forall>k < length dst'. P (dst' ! k) \<and>
              advect_value timestep u v q (int (k div nat (q_w q))) (int (k mod nat (q_w q))) = Some (dst' ! k))"
proof -
  define w h where "w = q_w q" and "h = q_h q"
  have w: "2 \<le> w" and h: "2 \<le> h" and len: "length (q_dst q) = nat (w*h)"
    using wf by (auto simp: wf_field_def w_def h_def)
  have n: "nat (w*h) = nat h * nat w" using w h by (simp add: nat_mult_distrib mult.commute)
  define cells where "cells = List.product [0..h - 1] [0..w - 1]"
  define body where "body = (\<lambda>c. advect_cell timestep u v q (fst c) (snd c))"
  define I where "I = (\<lambda>k (st :: int \<times> real list). fst st = int k \<and> length (snd st) = nat (w*h) \<and>
     (\<forall>j<k. P (snd st ! j) \<and>
        advect_value timestep u v q (int (j div nat w)) (int (j mod nat w)) = Some (snd st ! j)))"
  have lc: "length cells = nat (w*h)" by (simp add: cells_def n)
  have "\<exists>s'. for_loop cells body (0, q_dst q) = Some s' \<and> I (length cells) s'"
  proof (rule for_loop_inv)
    show "I 0 (0, q_dst q)" by (simp add: I_def len)
  next
    fix k st assume k: "k < length cells" and inv: "I k st"
    obtain idx dst where st: "st = (idx, dst)" by (cases st)
    have kk: "k < nat h * nat w" using k lc n by simp
    have c: "cells ! k = (int (k div nat w), int (k mod nat w))"
      unfolding cells_def using kk by (rule cells_nth)
    have wpos: "0 < nat w" using w by simp
    have iy: "int (k div nat w) < h" using kk wpos
      by (simp add: less_mult_imp_div_less zless_nat_eq_int_zless[symmetric])
    have ix: "int (k mod nat w) < w" using wpos
      by (metis mod_less_divisor nat_int zless_nat_conj)
    obtain a where a: "advect_value timestep u v q (int (k div nat w)) (int (k mod nat w)) = Some a" "P a"
      using val[of "int (k div nat w)" "int (k mod nat w)"] iy ix by (auto simp: w_def h_def)
    have idx: "idx = int k" "length dst = nat (w*h)" using inv st by (auto simp: I_def)
    have "0 \<le> w*h" using w h by simp
    then have wrk: "wr dst idx a = Some (dst[k := a])"
      using idx k lc by (simp add: wr_def)
    have "body (cells ! k) st = Some (int (Suc k), dst[k := a])"
      using a wrk idx by (simp add: body_def c st advect_cell_value)
    moreover have "I (Suc k) (int (Suc k), dst[k := a])"
      using inv st a idx k lc by (auto simp: I_def less_Suc_eq nth_list_update)
    ultimately show "\<exists>s'. body (cells ! k) st = Some s' \<and> I (Suc k) s'" by blast
  qed
  then obtain idx' dst' where run: "for_loop cells body (0, q_dst q) = Some (idx', dst')"
    and fin: "I (length cells) (idx', dst')" by (metis surj_pair)
  have "advect timestep u v q = Some (q\<lparr>q_dst := dst'\<rparr>)"
    unfolding advect_def for_loop_product using run
    by (simp add: cells_def body_def w_def h_def)
  moreover have "length dst' = length (q_dst q)" using fin len by (simp add: I_def)
  moreover have "\<forall>k < length dst'. P (dst' ! k) \<and>
      advect_value timestep u v q (int (k div nat (q_w q))) (int (k mod nat (q_w q))) = Some (dst' ! k)"
    using fin lc by (auto simp: I_def w_def)
  ultimately show ?thesis by blast
qed

lemma src_bounds:
  assumes "wf_field q"
  shows "\<forall>a\<in>set (q_src q). Min (set (q_src q)) \<le> a \<and> a \<le> Max (set (q_src q))"
  by simp

text \<open>
  C9. Advection creates no new extrema. For a well-formed field advected through
  well-formed velocity fields, \<^verbatim>\<open>advect\<close> completes without leaving any buffer, leaves the
  current buffer as it was, and every cell of the next buffer then holds a value between
  the least and the greatest value of the current buffer, for every timestep.
\<close>

theorem advect_no_new_extrema:
  assumes "wf_field q" and "wf_field u" and "wf_field v"
  shows "\<exists>q'. advect timestep u v q = Some q' \<and> q_src q' = q_src q \<and>
           length (q_dst q') = length (q_dst q) \<and>
           (\<forall>i < length (q_dst q').
              Min (set (q_src q)) \<le> q_dst q' ! i \<and> q_dst q' ! i \<le> Max (set (q_src q)))"
proof -
  have val: "\<exists>c. advect_value timestep u v q iy ix = Some c \<and>
                (Min (set (q_src q)) \<le> c \<and> c \<le> Max (set (q_src q)))" for iy ix
    by (rule advect_value_bounds[OF assms(2,3,1) src_bounds[OF assms(1)]])
  from advect_result[OF assms(1), of timestep u v
      "\<lambda>c. Min (set (q_src q)) \<le> c \<and> c \<le> Max (set (q_src q))"] val
  obtain dst' where "advect timestep u v q = Some (q\<lparr>q_dst := dst'\<rparr>)"
      "length dst' = length (q_dst q)"
      "\<forall>k < length dst'. Min (set (q_src q)) \<le> dst' ! k \<and> dst' ! k \<le> Max (set (q_src q))"
    by blast
  then show ?thesis by simp
qed

lemma example_fields_wf: "wf_field corner_field" "wf_field shear_u" "wf_field still_v"
  by (simp_all add: wf_field_def corner_field_def shear_u_def still_v_def)

theorem advect_no_new_extrema_witness:
  "wf_field corner_field \<and> wf_field shear_u \<and> wf_field still_v \<and>
   (\<exists>q'. advect 0.1 shear_u still_v corner_field = Some q' \<and>
      q_src q' = [3, 0, 0, 1] \<and> length (q_dst q') = 4 \<and>
      0 \<le> q_dst q' ! 1 \<and> q_dst q' ! 1 \<le> 3)"
proof -
  have m: "Min (set (q_src corner_field)) = 0" "Max (set (q_src corner_field)) = 3"
    by (simp_all add: corner_field_def)
  from advect_no_new_extrema[OF example_fields_wf, of "0.1"]
  obtain q' where q': "advect 0.1 shear_u still_v corner_field = Some q'"
      "q_src q' = q_src corner_field" "length (q_dst q') = length (q_dst corner_field)"
      "\<forall>i < length (q_dst q'). 0 \<le> q_dst q' ! i \<and> q_dst q' ! i \<le> 3"
    unfolding m by blast
  have l: "length (q_dst q') = 4" using q'(3) by (simp add: corner_field_def)
  have s: "q_src q' = [3, 0, 0, 1]" using q'(2) by (simp add: corner_field_def)
  have "0 \<le> q_dst q' ! 1 \<and> q_dst q' ! 1 \<le> 3" using q'(4) l by simp
  with q'(1) l s show ?thesis using example_fields_wf by blast
qed

subsection \<open>Bilinear sampling at grid points\<close>

text \<open>
  C7, as the code has it. For a well-formed field and a grid index \<open>(ix, iy)\<close> that is not
  in the last column or the last row (\<open>0 \<le> ix \<le> width - 2\<close>, \<open>0 \<le> iy \<le> height - 2\<close>),
  bilinear sampling at the grid point's position \<open>(ix + offsetX, iy + offsetY)\<close> returns
  exactly the value stored at cell \<open>(ix, iy)\<close>.
\<close>

theorem lerp_xy_interior_grid_point:
  assumes wf: "wf_field q" and ix: "0 \<le> ix" "ix \<le> q_w q - 2" and iy: "0 \<le> iy" "iy \<le> q_h q - 2"
  shows "lerp_xy q (real_of_int ix + q_ox q) (real_of_int iy + q_oy q) = Some (q_src q ! nat (ix + iy * q_w q))
       \<and> at_xy q ix iy = Some (q_src q ! nat (ix + iy * q_w q))"
proof -
  have cx: "min (real_of_int ix) (real_of_int (q_w q) - 1001/1000) = real_of_int ix"
    using ix by simp
  have cy: "min (real_of_int iy) (real_of_int (q_h q) - 1001/1000) = real_of_int iy"
    using iy by simp
  have tx: "trunc_int (real_of_int ix) = ix" using ix by (simp add: trunc_int_def)
  have ty: "trunc_int (real_of_int iy) = iy" using iy by (simp add: trunc_int_def)
  have a00: "at_xy q ix iy = Some (q_src q ! nat (ix + iy * q_w q))"
    using at_xy_Some[OF wf, of ix iy] ix iy by simp
  obtain b where a10: "at_xy q (ix + 1) iy = Some b"
    using at_xy_Some[OF wf, of "ix + 1" iy] ix iy by simp
  obtain c where a01: "at_xy q ix (iy + 1) = Some c"
    using at_xy_Some[OF wf, of ix "iy + 1"] ix iy by simp
  obtain d where a11: "at_xy q (ix + 1) (iy + 1) = Some d"
    using at_xy_Some[OF wf, of "ix + 1" "iy + 1"] ix iy by simp
  have "lerp_xy q (real_of_int ix + q_ox q) (real_of_int iy + q_oy q) = Some (q_src q ! nat (ix + iy * q_w q))"
    using ix(1) iy(1)
    by (simp add: lerp_xy_def Let_def max_absorb1 cx cy tx ty a00 a10 a01 a11 lerp_def)
  with a00 show ?thesis by simp
qed

theorem lerp_xy_interior_grid_point_witness:
  "wf_field corner_field \<and> (0::int) \<le> 0 \<and> 0 \<le> q_w corner_field - 2 \<and> 0 \<le> q_h corner_field - 2 \<and>
   lerp_xy corner_field (real_of_int 0 + q_ox corner_field) (real_of_int 0 + q_oy corner_field) = Some 3 \<and>
   at_xy corner_field 0 0 = Some 3"
  using lerp_xy_interior_grid_point[of corner_field 0 0] example_fields_wf(1)
  by (simp add: corner_field_def)

text \<open>
  The claim as written, for every index with \<open>0 \<le> ix < width\<close> and \<open>0 \<le> iy < height\<close>,
  fails in the last column and row: there the clamp to \<open>dim - 1.001\<close> moves the sample
  point 0.001 cell inwards. In \<open>corner_field\<close> cell \<open>(1, 1)\<close> stores 1 and the sample at
  its grid point is 0.998004.
\<close>

theorem lerp_xy_last_cell_counterexample:
  "(0::int) \<le> 1 \<and> 1 < q_w corner_field \<and> 1 < q_h corner_field \<and>
   at_xy corner_field 1 1 = Some 1 \<and>
   lerp_xy corner_field (real_of_int 1 + q_ox corner_field) (real_of_int 1 + q_oy corner_field)
     = Some 0.998004"
  by (simp add: lerp_xy_def corner_field_def at_xy_def rd_def trunc_int_def lerp_def Let_def)

subsection \<open>The backward trace\<close>

lemma shear_u_samples:
  "lerp_xy shear_u 1 (1/2) = Some 1"
  "lerp_xy shear_u (9/10) (1/2) = Some (9/10)"
  "lerp_xy shear_u (173/200) (1/2) = Some (173/200)"
  by (simp_all add: lerp_xy_def shear_u_def at_xy_def rd_def trunc_int_def lerp_def Let_def)

lemma still_v_samples:
  "lerp_xy still_v 1 (1/2) = Some 0"
  "lerp_xy still_v (9/10) (1/2) = Some 0"
  "lerp_xy still_v (173/200) (1/2) = Some 0"
  by (simp_all add: lerp_xy_def still_v_def at_xy_def rd_def trunc_int_def lerp_def Let_def)

lemma shear_u_hx: "q_hx shear_u = 1/2"
  by (simp add: shear_u_def)

text \<open>
  C1. The trace samples the velocity three times and combines the samples with the
  weights 2/9, 3/9, 4/9, but only the first two samples are divided by the cell size: the
  third, \<^verbatim>\<open>lastU\<close> and \<^verbatim>\<open>lastV\<close>, enters the combination as the raw sampled velocity.
  Tracing the grid point \<open>(1, 0)\<close> of \<open>shear_u\<close> (position \<open>(1, 0.5)\<close>) through itself with
  timestep 0.1, the code arrives at \<open>x = 3857/4500\<close>; with every sample divided by the
  cell size, as specified, the trace arrives at \<open>x = 307/375\<close>.
\<close>

theorem rungeKutta3_last_sample_not_scaled:
  "rungeKutta3 shear_u 1 0.5 0.1 shear_u still_v = Some (3857/4500, 1/2) \<and>
   rungeKutta3_as_specified shear_u 1 0.5 0.1 shear_u still_v = Some (307/375, 1/2)"
  by (simp add: rungeKutta3_def rungeKutta3_as_specified_def shear_u_samples still_v_samples
      shear_u_hx Let_def)

subsection \<open>The steps of the solver\<close>


lemma for_loop_inv_set:
  assumes step: "\<And>x s. x \<in> set xs \<Longrightarrow> I s \<Longrightarrow> \<exists>s'. body x s = Some s' \<and> I s'"
    and init: "I s"
  shows "\<exists>s'. for_loop xs body s = Some s' \<and> I s'"
  using for_loop_inv[of xs "\<lambda>k. I" body s] assms by auto

lemma cell_loop_inv:
  assumes step: "\<And>y x s. 0 \<le> y \<Longrightarrow> y < h \<Longrightarrow> 0 \<le> x \<Longrightarrow> x < w \<Longrightarrow> I s \<Longrightarrow>
                   \<exists>s'. body y x s = Some s' \<and> I s'"
    and init: "I s"
  shows "\<exists>s'. for_loop [0..h - 1] (\<lambda>y. for_loop [0..w - 1] (body y)) s = Some s' \<and> I s'"
proof (rule for_loop_inv_set[where I = I])
  fix y t assume y: "y \<in> set [0..h - 1]" and t: "I t"
  show "\<exists>s'. for_loop [0..w - 1] (body y) t = Some s' \<and> I s'"
  proof (rule for_loop_inv_set[where I = I])
    fix x t' assume "x \<in> set [0..w - 1]" "I t'"
    with y show "\<exists>s'. body y x t' = Some s' \<and> I s'"
      by (intro step) auto
  qed (rule t)
qed (rule init)

lemma cell_of_index:
  assumes "0 < w" "k < nat h * nat w"
  shows "0 \<le> int (k div nat w)" "int (k div nat w) < h" "0 \<le> int (k mod nat w)" "int (k mod nat w) < w"
    "int (k mod nat w) + int (k div nat w) * w = int k"
proof -
  define n where "n = nat w"
  define d where "d = k div n"
  define m where "m = k mod n"
  have npos: "0 < n" using assms(1) by (simp add: n_def)
  have wn: "int (nat w) = w" using assms(1) by simp
  show "0 \<le> int (k div nat w)" "0 \<le> int (k mod nat w)" by simp_all
  have dh: "d < nat h" unfolding d_def using assms(2) npos
    by (simp add: less_mult_imp_div_less n_def)
  have "int d < int (nat h)" using dh by (rule iffD2[OF of_nat_less_iff])
  moreover have "int (nat h) = h"
  proof -
    have "0 < nat h" using dh by simp
    then show ?thesis by simp
  qed
  ultimately show "int (k div nat w) < h" by (simp add: d_def n_def)
  have "m < n" unfolding m_def using npos by (rule mod_less_divisor)
  then have "int m < int n" by (rule iffD2[OF of_nat_less_iff])
  then show "int (k mod nat w) < w" unfolding m_def n_def wn .
  have "m + d * n = k" unfolding m_def d_def by (rule mod_div_mult_eq)
  then have "int (m + d * n) = int k" by (rule arg_cong)
  then have "int m + int d * int n = int k" by (simp only: of_nat_add of_nat_mult)
  then show "int (k mod nat w) + int (k div nat w) * w = int k"
    unfolding m_def d_def n_def wn .
qed

lemma idx_cell_loop:
  assumes step: "\<And>y x t. 0 \<le> y \<Longrightarrow> y < h \<Longrightarrow> 0 \<le> x \<Longrightarrow> x < w \<Longrightarrow> I t \<Longrightarrow>
                   \<exists>t'. body y x (x + y*w, t) = Some (x + y*w + 1, t') \<and> I t'"
    and init: "I t0"
  shows "\<exists>i t'. for_loop [0..h - 1] (\<lambda>y. for_loop [0..w - 1] (body y)) (0, t0) = Some (i, t') \<and> I t'"
proof -
  define cells where "cells = List.product [0..h - 1] [0..w - 1]"
  define J where "J = (\<lambda>k (st :: int \<times> 'a). fst st = int k \<and> I (snd st))"
  have "\<exists>s'. for_loop cells (\<lambda>c. body (fst c) (snd c)) (0, t0) = Some s' \<and> J (length cells) s'"
  proof (rule for_loop_inv)
    show "J 0 (0, t0)" by (simp add: J_def init)
  next
    fix k st assume k: "k < length cells" and inv: "J k st"
    have kk: "k < nat h * nat w" using k by (simp add: cells_def)
    then have wpos: "0 < w" by (cases "0 < w") auto
    have c: "cells ! k = (int (k div nat w), int (k mod nat w))"
      unfolding cells_def using kk by (rule cells_nth)
    note ci = cell_of_index[OF wpos kk]
    obtain t where st: "st = (int k, t)" "I t" using inv by (cases st) (auto simp: J_def)
    from step[OF ci(1,2,3,4) st(2)] ci(5)
    obtain t' where "body (int (k div nat w)) (int (k mod nat w)) (int k, t) = Some (int k + 1, t')" "I t'"
      by auto
    then show "\<exists>s'. (\<lambda>c. body (fst c) (snd c)) (cells ! k) st = Some s' \<and> J (Suc k) s'"
      by (simp add: c st J_def)
  qed
  then show ?thesis
    unfolding for_loop_product cells_def J_def by (metis prod.collapse)
qed

lemma buildRhs_total:
  assumes "wf_solver s"
  shows "\<exists>r'. buildRhs s = Some (s\<lparr>s_r := r'\<rparr>) \<and> length r' = length (s_r s)"
proof -
  define w h where "w = s_w s" and "h = s_h s"
  define n where "n = length (s_r s)"
  have wf: "wf_field (s_u s)" "wf_field (s_v s)" "q_w (s_u s) = w + 1" "q_h (s_u s) = h"
      "q_w (s_v s) = w" "q_h (s_v s) = h + 1" "2 \<le> w" "2 \<le> h" "n = nat (w*h)"
    using assms by (auto simp: wf_solver_def w_def h_def n_def)
  have "\<exists>i r'. for_loop [0..h - 1] (\<lambda>y. for_loop [0..w - 1] (buildRhs_cell s scale y)) (0, s_r s)
          = Some (i, r') \<and> length r' = n" for scale
  proof (rule idx_cell_loop)
    show "length (s_r s) = n" by (simp add: n_def)
  next
    fix y x and t :: "real list"
    assume c: "0 \<le> y" "y < h" "0 \<le> x" "x < w" and t: "length t = n"
    obtain u1 where u1: "at_xy (s_u s) (x + 1) y = Some u1"
      using at_xy_Some[OF wf(1), of "x + 1" y] c wf by auto
    obtain u0 where u0: "at_xy (s_u s) x y = Some u0"
      using at_xy_Some[OF wf(1), of x y] c wf by auto
    obtain v1 where v1: "at_xy (s_v s) x (y + 1) = Some v1"
      using at_xy_Some[OF wf(2), of x "y + 1"] c wf by auto
    obtain v0 where v0: "at_xy (s_v s) x y = Some v0"
      using at_xy_Some[OF wf(2), of x y] c wf by auto
    from cell_index[OF c(3,4,1,2)] have "0 \<le> x + y*w" "x + y*w < int (length t)"
      using t wf(9) by auto
    then have "wr t (x + y*w) a = Some (t[nat (x + y*w) := a])" for a
      by (rule wr_Some)
    then show "\<exists>t'. buildRhs_cell s scale y x (x + y*w, t) = Some (x + y*w + 1, t') \<and> length t' = n"
      using t by (simp add: buildRhs_cell_def u1 u0 v1 v0)
  qed
  from this[of "1 / s_hx s"] obtain i r' where
    "for_loop [0..h - 1] (\<lambda>y. for_loop [0..w - 1] (buildRhs_cell s (1 / s_hx s) y)) (0, s_r s)
          = Some (i, r')" "length r' = n" by blast
  moreover have "fdiv 1.0 (s_hx s) = Some (1 / s_hx s)"
    using assms by (simp add: fdiv_def wf_solver_def)
  ultimately have "buildRhs s = Some (s\<lparr>s_r := r'\<rparr>)" "length r' = length (s_r s)"
    by (simp_all add: buildRhs_def w_def h_def n_def)
  then show ?thesis by blast
qed



lemma relax_cell_total:
  assumes c: "0 \<le> y" "y < h" "0 \<le> x" "x < w"
    and len: "length r = nat (w*h)" "length p = nat (w*h)"
    and pos: "0 < scale" and w2: "2 \<le> w"
  shows "\<exists>a. relax_cell w h scale r p y x = Some (a, p ! nat (x + y*w))"
proof -
  from cell_index[OF c(3,4,1,2)] have i: "0 \<le> x + y*w" "x + y*w < w*h" by auto
  have rd_in: "rd b j = Some (b ! nat j)" if "0 \<le> j" "j < w*h" "length b = nat (w*h)" for b j
    using that by (simp add: rd_def)
  have l: "rd p (x + y*w - 1) = Some (p ! nat (x + y*w - 1))" if "x > 0"
  proof -
    have "0 \<le> (x - 1) + y*w \<and> (x - 1) + y*w < w*h"
      using c that by (intro cell_index) auto
    then show ?thesis by (intro rd_in len) (auto simp: algebra_simps)
  qed
  have u: "rd p (x + y*w - w) = Some (p ! nat (x + y*w - w))" if "y > 0"
  proof -
    have "0 \<le> x + (y - 1)*w \<and> x + (y - 1)*w < w*h"
      using c that by (intro cell_index) auto
    then show ?thesis by (intro rd_in len) (auto simp: algebra_simps)
  qed
  have rr: "rd p (x + y*w + 1) = Some (p ! nat (x + y*w + 1))" if "x < w - 1"
  proof -
    have "0 \<le> (x + 1) + y*w \<and> (x + 1) + y*w < w*h"
      using c that by (intro cell_index) auto
    then show ?thesis by (intro rd_in len) (auto simp: algebra_simps)
  qed
  have d: "rd p (x + y*w + w) = Some (p ! nat (x + y*w + w))" if "y < h - 1"
  proof -
    have "0 \<le> x + (y + 1)*w \<and> x + (y + 1)*w < w*h"
      using c that by (intro cell_index) auto
    then show ?thesis by (intro rd_in len) (auto simp: algebra_simps)
  qed
  have ri: "rd r (x + y*w) = Some (r ! nat (x + y*w))" using i by (intro rd_in len)
  have pi: "rd p (x + y*w) = Some (p ! nat (x + y*w))" using i by (intro rd_in len)
  have nz: "scale \<noteq> 0" "scale + scale \<noteq> 0" "scale + scale + scale \<noteq> 0"
      "scale + scale + scale + scale \<noteq> 0"
    using pos by simp_all
  have side: "x > 0 \<or> x < w - 1" using w2 by linarith
  show ?thesis
    unfolding relax_cell_def Let_def
    using side
    by (cases "x > 0"; cases "y > 0"; cases "x < w - 1"; cases "y < h - 1")
       (simp_all add: fdiv_def nz l u rr d ri pi)
qed




lemma jacobi_sweep_total:
  assumes dims: "2 \<le> w" "0 \<le> h" and pos: "0 < scale"
    and len: "length r = nat (w*h)" "length p = nat (w*h)" "length p2 = nat (w*h)"
  shows "\<exists>p' d. jacobi_sweep w h scale r (p, p2) = Some ((p', p'), d) \<and> length p' = nat (w*h)"
proof -
  have "\<exists>s'. for_loop [0..h - 1] (\<lambda>y. for_loop [0..w - 1] (jacobi_cell w h scale r p y)) (p2, 0.0) = Some s'
          \<and> length (fst s') = nat (w*h)"
  proof (rule cell_loop_inv[where I = "\<lambda>s. length (fst s) = nat (w*h)"])
    show "length (fst (p2, 0.0::real)) = nat (w*h)" using len by simp
  next
    fix y x and s :: "real list \<times> real"
    assume c: "0 \<le> y" "y < h" "0 \<le> x" "x < w" and s: "length (fst s) = nat (w*h)"
    obtain b m where sb: "s = (b, m)" by (cases s)
    obtain a where a: "relax_cell w h scale r p y x = Some (a, p ! nat (x + y*w))"
      using relax_cell_total[OF c len(1,2) pos dims(1)] by blast
    from cell_index[OF c(3,4,1,2)] have "0 \<le> x + y*w" "x + y*w < int (length b)"
      using s sb by auto
    then have "wr b (x + y*w) a = Some (b[nat (x + y*w) := a])" by (rule wr_Some)
    then show "\<exists>s'. jacobi_cell w h scale r p y x s = Some s' \<and> length (fst s') = nat (w*h)"
      using s sb by (simp add: jacobi_cell_def a)
  qed
  then obtain b d where run: "for_loop [0..h - 1] (\<lambda>y. for_loop [0..w - 1] (jacobi_cell w h scale r p y)) (p2, 0.0) = Some (b, d)"
      and b: "length b = nat (w*h)" by (metis fst_conv surj_pair)
  have "0 \<le> w*h" using dims by simp
  then have "memcpy_cells p b (w*h) = Some b" using b len by (simp add: memcpy_cells_def)
  with run b show ?thesis by (simp add: jacobi_sweep_def)
qed

lemma project_sweep_total:
  assumes len: "length r = nat (w*h)" "length p = nat (w*h)"
    and pos: "0 < scale" and w2: "2 \<le> w"
  shows "\<exists>p' d. project_sweep w h scale r p = Some (p', d) \<and> length p' = nat (w*h)"
proof -
  have "\<exists>s'. for_loop [0..h - 1] (\<lambda>y. for_loop [0..w - 1] (project_cell w h scale r y)) (p, 0.0) = Some s'
          \<and> length (fst s') = nat (w*h)"
  proof (rule cell_loop_inv[where I = "\<lambda>s. length (fst s) = nat (w*h)"])
    show "length (fst (p, 0.0::real)) = nat (w*h)" using len by simp
  next
    fix y x and s :: "real list \<times> real"
    assume c: "0 \<le> y" "y < h" "0 \<le> x" "x < w" and s: "length (fst s) = nat (w*h)"
    obtain b m where sb: "s = (b, m)" by (cases s)
    have lb: "length b = nat (w*h)" using s sb by simp
    obtain a where a: "relax_cell w h scale r b y x = Some (a, b ! nat (x + y*w))"
      using relax_cell_total[OF c len(1) lb pos w2] by blast
    from cell_index[OF c(3,4,1,2)] have "0 \<le> x + y*w" "x + y*w < int (length b)"
      using lb by auto
    then have "wr b (x + y*w) a = Some (b[nat (x + y*w) := a])" by (rule wr_Some)
    then show "\<exists>s'. project_cell w h scale r y x s = Some s' \<and> length (fst s') = nat (w*h)"
      using lb sb by (simp add: project_cell_def a)
  qed
  then show ?thesis by (auto simp: project_sweep_def)
qed

lemma pressure_scale:
  assumes "0 < timestep" "0 < s_density s" "0 < s_hx s"
  shows "fdiv timestep (s_density s * s_hx s * s_hx s) = Some (timestep/(s_density s * s_hx s * s_hx s))"
    and "0 < timestep/(s_density s * s_hx s * s_hx s)"
  using assms by (simp_all add: fdiv_def)

lemma pressure_sweep_total:
  assumes "2 \<le> s_w s" "0 \<le> s_h s" "length (s_r s) = nat (s_w s * s_h s)" "pp_ok s pp"
    and pos: "0 < timestep" "0 < s_density s" "0 < s_hx s"
  shows "\<exists>pp' d. pressure_sweep timestep s pp = Some (pp', d) \<and> pp_ok s pp'"
proof (cases "iteration_type s = ITER_JACOBI")
  case True
  obtain p p2 where pp: "pp = (p, p2)" by (cases pp)
  have l: "length p = nat (s_w s * s_h s)" "length p2 = nat (s_w s * s_h s)"
    using assms(4) pp by (simp_all add: pp_ok_def)
  from jacobi_sweep_total[OF assms(1,2) pressure_scale(2)[OF pos] assms(3) l]
  obtain p' d where "jacobi_sweep (s_w s) (s_h s) (timestep/(s_density s * s_hx s * s_hx s)) (s_r s) (p, p2)
      = Some ((p', p'), d)" "length p' = nat (s_w s * s_h s)" by blast
  then have "pressure_sweep timestep s pp = Some ((p', p'), d)" "pp_ok s (p', p')"
    using True pp by (simp_all add: pressure_sweep_def pressure_scale(1)[OF pos] pp_ok_def)
  then show ?thesis by blast
next
  case False
  have "length (fst pp) = nat (s_w s * s_h s)" using assms(4) by (simp add: pp_ok_def)
  from project_sweep_total[OF assms(3) this pressure_scale(2)[OF pos] assms(1)]
  obtain p' d where "project_sweep (s_w s) (s_h s) (timestep/(s_density s * s_hx s * s_hx s)) (s_r s) (fst pp)
      = Some (p', d)" "length p' = nat (s_w s * s_h s)" by blast
  then have "pressure_sweep timestep s pp = Some ((p', snd pp), d)" "pp_ok s (p', snd pp)"
    using False assms(4) by (simp_all add: pressure_sweep_def pressure_scale(1)[OF pos] pp_ok_def)
  then show ?thesis by blast
qed

lemma sweep_loop_total:
  assumes "\<And>p. J p \<Longrightarrow> \<exists>p' d. sweep p = Some (p', d) \<and> J p'"
    and "J p" and "iter < limit \<or> maxDelta \<noteq> None"
  shows "\<exists>p' rep. sweep_loop sweep limit iter maxDelta p = Some (p', rep) \<and> J p'"
  using assms
proof (induction sweep limit iter maxDelta p rule: sweep_loop.induct)
  case (1 sweep limit iter maxDelta p)
  show ?case
  proof (cases "iter < limit")
    case True
    from "1.prems"(1)[OF "1.prems"(2)] obtain p' d where s: "sweep p = Some (p', d)" "J p'" by blast
    show ?thesis
    proof (cases "d < 0.00001")
      case True
      with s \<open>iter < limit\<close> show ?thesis by (subst sweep_loop.simps) simp
    next
      case False
      have "\<exists>p'' rep. sweep_loop sweep limit (iter + 1) (Some d) p' = Some (p'', rep) \<and> J p''"
        by (rule "1.IH"[OF \<open>iter < limit\<close> s(1) refl False "1.prems"(1) s(2)]) simp_all
      then obtain p'' rep where "sweep_loop sweep limit (iter + 1) (Some d) p' = Some (p'', rep)" "J p''"
        by auto
      with s False \<open>iter < limit\<close> show ?thesis by (subst sweep_loop.simps) simp
    qed
  next
    case False
    with "1.prems" show ?thesis by (subst sweep_loop.simps) auto
  qed
qed

text \<open>What the loop returns, in terms of the sweeps it ran.\<close>

lemma sweep_loop_char:
  assumes "sweep_loop sweep limit iter maxDelta p = Some (p', rep)" and "iter < limit"
  shows "\<exists>n d. 0 < n \<and> int n \<le> limit - iter \<and> sweeps sweep n p = Some p' \<and>
           sweep_delta sweep (n - 1) p = Some d \<and>
           (\<forall>j < n - 1. \<exists>dj. sweep_delta sweep j p = Some dj \<and> \<not> dj < 0.00001) \<and>
           (if d < 0.00001 then rep = Exiting (iter + int n - 1) d
            else int n = limit - iter \<and> rep = Exceeded limit d)"
  using assms
proof (induction sweep limit iter maxDelta p rule: sweep_loop.induct)
  case (1 sweep limit iter maxDelta p)
  from "1.prems" obtain p1 d1 where s: "sweep p = Some (p1, d1)"
    by (subst (asm) sweep_loop.simps) (auto split: option.splits)
  show ?case
  proof (cases "d1 < 0.00001")
    case True
    with "1.prems" s have "p' = p1" "rep = Exiting iter d1"
      by (subst (asm) sweep_loop.simps, simp)+
    with s True "1.prems"(2) show ?thesis
      by (intro exI[of _ 1] exI[of _ d1]) simp
  next
    case False
    with "1.prems" s have rec: "sweep_loop sweep limit (iter + 1) (Some d1) p1 = Some (p', rep)"
      by (subst (asm) sweep_loop.simps) simp
    show ?thesis
    proof (cases "iter + 1 < limit")
      case True
      from "1.IH"[OF "1.prems"(2) s refl False rec True]
      obtain n d where n: "0 < n" "int n \<le> limit - (iter + 1)" "sweeps sweep n p1 = Some p'"
          "sweep_delta sweep (n - 1) p1 = Some d"
          "\<forall>j < n - 1. \<exists>dj. sweep_delta sweep j p1 = Some dj \<and> \<not> dj < 0.00001"
          "if d < 0.00001 then rep = Exiting (iter + 1 + int n - 1) d
           else int n = limit - (iter + 1) \<and> rep = Exceeded limit d"
        by blast
      obtain m where m: "n = Suc m" using n(1) by (cases n) auto
      have prev: "\<forall>j < Suc n - 1. \<exists>dj. sweep_delta sweep j p = Some dj \<and> \<not> dj < 0.00001"
      proof (intro allI impI)
        fix j assume j: "j < Suc n - 1"
        show "\<exists>dj. sweep_delta sweep j p = Some dj \<and> \<not> dj < 0.00001"
        proof (cases j)
          case 0
          then show ?thesis using s False by simp
        next
          case (Suc j')
          then have "j' < n - 1" using j by simp
          with n(5) Suc s show ?thesis by simp
        qed
      qed
      show ?thesis
        apply (intro exI[of _ "Suc n"] exI[of _ d])
        using n s m prev by (auto split: if_splits)
    next
      case False
      with "1.prems"(2) have lim: "limit = iter + 1" by simp
      with rec have "p' = p1" "rep = Exceeded limit d1"
        by (subst (asm) sweep_loop.simps, simp)+
      with s \<open>\<not> d1 < 0.00001\<close> lim show ?thesis
        by (intro exI[of _ 1] exI[of _ d1]) simp
    qed
  qed
qed


lemma same_shape_refl: "same_shape q q"
  by (simp add: same_shape_def)

lemma same_shape_trans: "same_shape a b \<Longrightarrow> same_shape b c \<Longrightarrow> same_shape a c"
  unfolding same_shape_def
  by (metis (no_types, lifting) FluidQuantity.surjective FluidQuantity.update_convs(1))

lemma same_shape_fields:
  assumes "same_shape q q'"
  shows "q_w q' = q_w q" "q_h q' = q_h q" "q_dst q' = q_dst q" "q_ox q' = q_ox q" "q_oy q' = q_oy q"
    "q_hx q' = q_hx q" "length (q_src q') = length (q_src q)"
proof -
  from assms have e: "q' = q\<lparr>q_src := q_src q'\<rparr>" and l: "length (q_src q') = length (q_src q)"
    by (auto simp: same_shape_def)
  show "length (q_src q') = length (q_src q)" by (rule l)
  show "q_w q' = q_w q" by (subst e) simp
  show "q_h q' = q_h q" by (subst e) simp
  show "q_dst q' = q_dst q" by (subst e) simp
  show "q_ox q' = q_ox q" by (subst e) simp
  show "q_oy q' = q_oy q" by (subst e) simp
  show "q_hx q' = q_hx q" by (subst e) simp
qed

lemma same_shape_wf: "same_shape q q' \<Longrightarrow> wf_field q \<Longrightarrow> wf_field q'"
  by (simp add: wf_field_def same_shape_fields)

lemma set_at_Some:
  assumes "wf_field q" "0 \<le> x" "x < q_w q" "0 \<le> y" "y < q_h q"
  shows "\<exists>q'. set_at q x y a = Some q' \<and> same_shape q q'"
proof -
  from cell_index[OF assms(2-5)] assms(1)
  have "0 \<le> x + y * q_w q" "x + y * q_w q < int (length (q_src q))"
    by (auto simp: wf_field_def)
  then have "wr (q_src q) (x + y * q_w q) a = Some ((q_src q)[nat (x + y * q_w q) := a])"
    by (rule wr_Some)
  then show ?thesis by (simp add: set_at_def same_shape_def)
qed

lemma add_at_Some:
  assumes "wf_field q" "0 \<le> x" "x < q_w q" "0 \<le> y" "y < q_h q"
  shows "\<exists>q'. add_at q x y a = Some q' \<and> same_shape q q'"
  using at_xy_Some[OF assms] set_at_Some[OF assms] by (simp add: add_at_def)

lemma set_at_zero_self:
  assumes "set_at q x y 0 = Some q'"
  shows "at_xy q' x y = Some 0"
proof -
  from assms obtain b where b: "wr (q_src q) (x + y * q_w q) 0 = Some b" "q' = q\<lparr>q_src := b\<rparr>"
    by (auto simp: set_at_def split: Option.bind_splits)
  from wr_SomeD[OF b(1)]
  have i: "0 \<le> x + y * q_w q" "x + y * q_w q < int (length (q_src q))"
    and bb: "b = (q_src q)[nat (x + y * q_w q) := 0]" by auto
  have "nat (x + y * q_w q) < length (q_src q)" using i by linarith
  then have "b ! nat (x + y * q_w q) = 0" unfolding bb by (rule nth_list_update_eq)
  moreover have "length b = length (q_src q)" unfolding bb by simp
  ultimately show ?thesis using i b(2) by (simp add: at_xy_def rd_def)
qed

lemma set_at_zero_keeps:
  assumes "set_at q x' y' 0 = Some q'" "at_xy q x y = Some 0"
  shows "at_xy q' x y = Some 0"
proof -
  from assms obtain b where b: "wr (q_src q) (x' + y' * q_w q) 0 = Some b" "q' = q\<lparr>q_src := b\<rparr>"
    by (auto simp: set_at_def split: Option.bind_splits)
  from wr_SomeD[OF b(1)]
  have i': "0 \<le> x' + y' * q_w q" "x' + y' * q_w q < int (length (q_src q))"
    and bb: "b = (q_src q)[nat (x' + y' * q_w q) := 0]" by auto
  from rd_SomeD[OF assms(2)[unfolded at_xy_def]]
  have i: "0 \<le> x + y * q_w q" "x + y * q_w q < int (length (q_src q))"
    and z: "q_src q ! nat (x + y * q_w q) = 0" by auto
  have n': "nat (x' + y' * q_w q) < length (q_src q)" using i' by linarith
  have "b ! nat (x + y * q_w q) = 0"
    unfolding bb using n' z by (simp add: nth_list_update)
  moreover have "length b = length (q_src q)" unfolding bb by simp
  ultimately show ?thesis using i b(2) by (simp add: at_xy_def rd_def)
qed

lemma zero_u_walls_loop:
  assumes wf: "wf_field u0" and w: "0 \<le> w" "w < q_w u0" and h: "h \<le> q_h u0"
  shows "\<exists>u'. for_loop [0..h - 1] (zero_u_walls w) u0 = Some u' \<and> same_shape u0 u' \<and>
     (\<forall>y. 0 \<le> y \<and> y < h \<longrightarrow> at_xy u' 0 y = Some 0 \<and> at_xy u' w y = Some 0)"
proof -
  define I where "I = (\<lambda>k u. same_shape u0 u \<and>
     (\<forall>j<k. at_xy u 0 (int j) = Some 0 \<and> at_xy u w (int j) = Some 0))"
  have "\<exists>u'. for_loop [0..h - 1] (zero_u_walls w) u0 = Some u' \<and> I (length [0..h - 1]) u'"
  proof (rule for_loop_inv)
    show "I 0 u0" by (simp add: I_def same_shape_refl)
  next
    fix k u assume k: "k < length [0..h - 1]" and inv: "I k u"
    have kh: "int k < h" using k by simp
    have y: "[0..h - 1] ! k = int k" using k by (simp add: nth_upto)
    have sh: "same_shape u0 u" using inv by (simp add: I_def)
    have wfu: "wf_field u" using same_shape_wf[OF sh wf] .
    have dims: "q_w u = q_w u0" "q_h u = q_h u0" using same_shape_fields[OF sh] by auto
    obtain u1 where u1: "set_at u w (int k) 0.0 = Some u1" "same_shape u u1"
      using set_at_Some[OF wfu, of w "int k"] w h kh dims by auto
    have wf1: "wf_field u1" using same_shape_wf[OF u1(2) wfu] .
    have dims1: "q_w u1 = q_w u0" "q_h u1 = q_h u0" using same_shape_fields[OF u1(2)] dims by auto
    obtain u2 where u2: "set_at u1 0 (int k) 0.0 = Some u2" "same_shape u1 u2"
      using set_at_Some[OF wf1, of 0 "int k"] w h kh dims1 by auto
    have run: "zero_u_walls w (int k) u = Some u2" using u1 u2 by (simp add: zero_u_walls_def)
    have z1: "set_at u w (int k) 0 = Some u1" "set_at u1 0 (int k) 0 = Some u2" using u1 u2 by simp_all
    have "at_xy u2 0 (int j) = Some 0 \<and> at_xy u2 w (int j) = Some 0" if "j < Suc k" for j
    proof (cases "j = k")
      case True
      have "at_xy u1 w (int k) = Some 0" by (rule set_at_zero_self[OF z1(1)])
      then have "at_xy u2 w (int k) = Some 0" by (rule set_at_zero_keeps[OF z1(2)])
      moreover have "at_xy u2 0 (int k) = Some 0" by (rule set_at_zero_self[OF z1(2)])
      ultimately show ?thesis using True by simp
    next
      case False
      then have "j < k" using that by simp
      then have "at_xy u 0 (int j) = Some 0" "at_xy u w (int j) = Some 0" using inv by (auto simp: I_def)
      then show ?thesis using set_at_zero_keeps[OF z1(2)] set_at_zero_keeps[OF z1(1)] by blast
    qed
    then have "I (Suc k) u2"
      using same_shape_trans[OF sh same_shape_trans[OF u1(2) u2(2)]] by (simp add: I_def)
    with run y show "\<exists>s'. zero_u_walls w ([0..h - 1] ! k) u = Some s' \<and> I (Suc k) s'" by simp
  qed
  then obtain u' where u': "for_loop [0..h - 1] (zero_u_walls w) u0 = Some u'" "I (nat h) u'" by auto
  have "at_xy u' 0 y = Some 0 \<and> at_xy u' w y = Some 0" if "0 \<le> y" "y < h" for y
  proof -
    have lt: "nat y < nat h" using that by simp
    have a: "\<forall>j<nat h. at_xy u' 0 (int j) = Some 0 \<and> at_xy u' w (int j) = Some 0"
      using u'(2) by (simp add: I_def)
    have e: "int (nat y) = y" using that by simp
    from a[rule_format, OF lt] show ?thesis unfolding e .
  qed
  moreover have "same_shape u0 u'" using u'(2) by (simp add: I_def)
  ultimately show ?thesis using u'(1) by blast
qed

lemma zero_v_walls_loop:
  assumes wf: "wf_field v0" and h: "0 \<le> h" "h < q_h v0" and w: "w \<le> q_w v0"
  shows "\<exists>v'. for_loop [0..w - 1] (zero_v_walls h) v0 = Some v' \<and> same_shape v0 v' \<and>
     (\<forall>x. 0 \<le> x \<and> x < w \<longrightarrow> at_xy v' x 0 = Some 0 \<and> at_xy v' x h = Some 0)"
proof -
  define I where "I = (\<lambda>k v. same_shape v0 v \<and>
     (\<forall>j<k. at_xy v (int j) 0 = Some 0 \<and> at_xy v (int j) h = Some 0))"
  have "\<exists>v'. for_loop [0..w - 1] (zero_v_walls h) v0 = Some v' \<and> I (length [0..w - 1]) v'"
  proof (rule for_loop_inv)
    show "I 0 v0" by (simp add: I_def same_shape_refl)
  next
    fix k v assume k: "k < length [0..w - 1]" and inv: "I k v"
    have kw: "int k < w" using k by simp
    have x: "[0..w - 1] ! k = int k" using k by (simp add: nth_upto)
    have sh: "same_shape v0 v" using inv by (simp add: I_def)
    have wfv: "wf_field v" using same_shape_wf[OF sh wf] .
    have dims: "q_w v = q_w v0" "q_h v = q_h v0" using same_shape_fields[OF sh] by auto
    obtain v1 where v1: "set_at v (int k) h 0.0 = Some v1" "same_shape v v1"
      using set_at_Some[OF wfv, of "int k" h] w h kw dims by auto
    have wf1: "wf_field v1" using same_shape_wf[OF v1(2) wfv] .
    have dims1: "q_w v1 = q_w v0" "q_h v1 = q_h v0" using same_shape_fields[OF v1(2)] dims by auto
    obtain v2 where v2: "set_at v1 (int k) 0 0.0 = Some v2" "same_shape v1 v2"
      using set_at_Some[OF wf1, of "int k" 0] w h kw dims1 by auto
    have run: "zero_v_walls h (int k) v = Some v2" using v1 v2 by (simp add: zero_v_walls_def)
    have z1: "set_at v (int k) h 0 = Some v1" "set_at v1 (int k) 0 0 = Some v2" using v1 v2 by simp_all
    have "at_xy v2 (int j) 0 = Some 0 \<and> at_xy v2 (int j) h = Some 0" if "j < Suc k" for j
    proof (cases "j = k")
      case True
      have "at_xy v1 (int k) h = Some 0" by (rule set_at_zero_self[OF z1(1)])
      then have "at_xy v2 (int k) h = Some 0" by (rule set_at_zero_keeps[OF z1(2)])
      moreover have "at_xy v2 (int k) 0 = Some 0" by (rule set_at_zero_self[OF z1(2)])
      ultimately show ?thesis using True by simp
    next
      case False
      then have "j < k" using that by simp
      then have "at_xy v (int j) 0 = Some 0" "at_xy v (int j) h = Some 0" using inv by (auto simp: I_def)
      then show ?thesis using set_at_zero_keeps[OF z1(2)] set_at_zero_keeps[OF z1(1)] by blast
    qed
    then have "I (Suc k) v2"
      using same_shape_trans[OF sh same_shape_trans[OF v1(2) v2(2)]] by (simp add: I_def)
    with run x show "\<exists>s'. zero_v_walls h ([0..w - 1] ! k) v = Some s' \<and> I (Suc k) s'" by simp
  qed
  then obtain v' where v': "for_loop [0..w - 1] (zero_v_walls h) v0 = Some v'" "I (nat w) v'" by auto
  have "at_xy v' x 0 = Some 0 \<and> at_xy v' x h = Some 0" if "0 \<le> x" "x < w" for x
  proof -
    have lt: "nat x < nat w" using that by simp
    have a: "\<forall>j<nat w. at_xy v' (int j) 0 = Some 0 \<and> at_xy v' (int j) h = Some 0"
      using v'(2) by (simp add: I_def)
    have e: "int (nat x) = x" using that by simp
    from a[rule_format, OF lt] show ?thesis unfolding e .
  qed
  moreover have "same_shape v0 v'" using v'(2) by (simp add: I_def)
  ultimately show ?thesis using v'(1) by blast
qed

subsection \<open>Projection\<close>

lemma applyPressure_cells:
  assumes wf: "wf_solver s"
  shows "\<exists>i u v. for_loop [0..s_h s - 1]
            (\<lambda>y. for_loop [0..s_w s - 1] (applyPressure_cell (s_w s) scale (s_p s) y))
            (0, s_u s, s_v s) = Some (i, u, v) \<and> same_shape (s_u s) u \<and> same_shape (s_v s) v"
proof -
  define w h where "w = s_w s" and "h = s_h s"
  have f: "wf_field (s_u s)" "wf_field (s_v s)" "q_w (s_u s) = w + 1" "q_h (s_u s) = h"
      "q_w (s_v s) = w" "q_h (s_v s) = h + 1" "length (s_p s) = nat (w*h)"
    using wf by (auto simp: wf_solver_def w_def h_def)
  have "\<exists>i t'. for_loop [0..h - 1] (\<lambda>y. for_loop [0..w - 1] (applyPressure_cell w scale (s_p s) y))
          (0, s_u s, s_v s) = Some (i, t') \<and> same_shape (s_u s) (fst t') \<and> same_shape (s_v s) (snd t')"
  proof (rule idx_cell_loop[where I = "\<lambda>t. same_shape (s_u s) (fst t) \<and> same_shape (s_v s) (snd t)"])
    show "same_shape (s_u s) (fst (s_u s, s_v s)) \<and> same_shape (s_v s) (snd (s_u s, s_v s))"
      by (simp add: same_shape_refl)
  next
    fix y x and t :: "FluidQuantity \<times> FluidQuantity"
    assume c: "0 \<le> y" "y < h" "0 \<le> x" "x < w"
      and inv: "same_shape (s_u s) (fst t) \<and> same_shape (s_v s) (snd t)"
    obtain u v where t: "t = (u, v)" by (cases t)
    have su: "same_shape (s_u s) u" and sv: "same_shape (s_v s) v" using inv t by auto
    have wfu: "wf_field u" and wfv: "wf_field v"
      using same_shape_wf[OF su f(1)] same_shape_wf[OF sv f(2)] by auto
    have du: "q_w u = w + 1" "q_h u = h" using same_shape_fields[OF su] f by auto
    have dv: "q_w v = w" "q_h v = h + 1" using same_shape_fields[OF sv] f by auto
    from cell_index[OF c(3,4,1,2)] f(7)
    have pr: "rd (s_p s) (x + y*w) = Some (s_p s ! nat (x + y*w))" by (intro rd_Some) auto
    define a where "a = s_p s ! nat (x + y*w)"
    obtain u1 where u1: "add_at u x y (- (scale*a)) = Some u1" "same_shape u u1"
      using add_at_Some[OF wfu, of x y] c du by auto
    have wfu1: "wf_field u1" using same_shape_wf[OF u1(2) wfu] .
    have du1: "q_w u1 = w + 1" "q_h u1 = h" using same_shape_fields[OF u1(2)] du by auto
    obtain u2 where u2: "add_at u1 (x + 1) y (scale*a) = Some u2" "same_shape u1 u2"
      using add_at_Some[OF wfu1, of "x + 1" y] c du1 by auto
    obtain v1 where v1: "add_at v x y (- (scale*a)) = Some v1" "same_shape v v1"
      using add_at_Some[OF wfv, of x y] c dv by auto
    have wfv1: "wf_field v1" using same_shape_wf[OF v1(2) wfv] .
    have dv1: "q_w v1 = w" "q_h v1 = h + 1" using same_shape_fields[OF v1(2)] dv by auto
    obtain v2 where v2: "add_at v1 x (y + 1) (scale*a) = Some v2" "same_shape v1 v2"
      using add_at_Some[OF wfv1, of x "y + 1"] c dv1 by auto
    have "applyPressure_cell w scale (s_p s) y x (x + y*w, t) = Some (x + y*w + 1, u2, v2)"
      using pr u1(1) u2(1) v1(1) v2(1) by (simp add: applyPressure_cell_def t a_def)
    moreover have "same_shape (s_u s) u2" "same_shape (s_v s) v2"
      using same_shape_trans[OF su same_shape_trans[OF u1(2) u2(2)]]
        same_shape_trans[OF sv same_shape_trans[OF v1(2) v2(2)]] by auto
    ultimately show "\<exists>t'. applyPressure_cell w scale (s_p s) y x (x + y*w, t) = Some (x + y*w + 1, t')
        \<and> same_shape (s_u s) (fst t') \<and> same_shape (s_v s) (snd t')" by simp
  qed
  then show ?thesis unfolding w_def h_def by (metis prod.collapse)
qed

lemma applyPressure_result:
  assumes wf: "wf_solver s"
  shows "\<exists>u' v'. applyPressure timestep s = Some (s\<lparr>s_u := u', s_v := v'\<rparr>) \<and>
      same_shape (s_u s) u' \<and> same_shape (s_v s) v' \<and>
      (\<forall>y. 0 \<le> y \<and> y < s_h s \<longrightarrow> at_xy u' 0 y = Some 0 \<and> at_xy u' (s_w s) y = Some 0) \<and>
      (\<forall>x. 0 \<le> x \<and> x < s_w s \<longrightarrow> at_xy v' x 0 = Some 0 \<and> at_xy v' x (s_h s) = Some 0)"
proof -
  have f: "wf_field (s_u s)" "wf_field (s_v s)" "q_w (s_u s) = s_w s + 1" "q_h (s_u s) = s_h s"
      "q_w (s_v s) = s_w s" "q_h (s_v s) = s_h s + 1" "2 \<le> s_w s" "2 \<le> s_h s"
    using wf by (auto simp: wf_solver_def)
  obtain i u v where cells: "for_loop [0..s_h s - 1]
            (\<lambda>y. for_loop [0..s_w s - 1]
               (applyPressure_cell (s_w s) (timestep/(s_density s * s_hx s)) (s_p s) y))
            (0, s_u s, s_v s) = Some (i, u, v)"
      and su: "same_shape (s_u s) u" and sv: "same_shape (s_v s) v"
    using applyPressure_cells[OF wf] by blast
  have wfu: "wf_field u" and wfv: "wf_field v"
    using same_shape_wf[OF su f(1)] same_shape_wf[OF sv f(2)] by auto
  have du: "q_w u = s_w s + 1" "q_h u = s_h s" using same_shape_fields[OF su] f by auto
  have dv: "q_w v = s_w s" "q_h v = s_h s + 1" using same_shape_fields[OF sv] f by auto
  obtain u' where u': "for_loop [0..s_h s - 1] (zero_u_walls (s_w s)) u = Some u'" "same_shape u u'"
      "\<forall>y. 0 \<le> y \<and> y < s_h s \<longrightarrow> at_xy u' 0 y = Some 0 \<and> at_xy u' (s_w s) y = Some 0"
    using zero_u_walls_loop[OF wfu, of "s_w s" "s_h s"] du f by auto
  obtain v' where v': "for_loop [0..s_w s - 1] (zero_v_walls (s_h s)) v = Some v'" "same_shape v v'"
      "\<forall>x. 0 \<le> x \<and> x < s_w s \<longrightarrow> at_xy v' x 0 = Some 0 \<and> at_xy v' x (s_h s) = Some 0"
    using zero_v_walls_loop[OF wfv, of "s_h s" "s_w s"] dv f by auto
  have "fdiv timestep (s_density s * s_hx s) = Some (timestep/(s_density s * s_hx s))"
    using wf by (simp add: fdiv_def wf_solver_def)
  then have "applyPressure timestep s = Some (s\<lparr>s_u := u', s_v := v'\<rparr>)"
    using cells u'(1) v'(1) by (simp add: applyPressure_def)
  with u'(3) v'(3) same_shape_trans[OF su u'(2)] same_shape_trans[OF sv v'(2)]
  show ?thesis by blast
qed

lemma wf_solver_velocities:
  assumes "wf_solver s" "same_shape (s_u s) u'" "same_shape (s_v s) v'"
  shows "wf_solver (s\<lparr>s_u := u', s_v := v'\<rparr>)"
  using assms same_shape_wf[OF assms(2)] same_shape_wf[OF assms(3)]
    same_shape_fields[OF assms(2)] same_shape_fields[OF assms(3)]
  by (simp add: wf_solver_def)


lemma sweep_loop_lift:
  "sweep_loop (\<lambda>pp. case sw (fst pp) of None \<Rightarrow> None | Some (p', d) \<Rightarrow> Some ((p', snd pp), d))
      limit iter md (p, p2) =
   (case sweep_loop sw limit iter md p of None \<Rightarrow> None | Some (p', rep) \<Rightarrow> Some ((p', p2), rep))"
proof (induction sw limit iter md p rule: sweep_loop.induct)
  case (1 sw limit iter md p)
  show ?case
  proof (cases "iter < limit")
    case False
    then show ?thesis
      by (subst sweep_loop.simps, subst (2) sweep_loop.simps) (simp split: option.splits)
  next
    case True
    show ?thesis
    proof (cases "sw p")
      case None
      with True show ?thesis
        by (subst sweep_loop.simps, subst (2) sweep_loop.simps) simp
    next
      case (Some a)
      obtain p' d where a: "a = (p', d)" by (cases a)
      show ?thesis
      proof (cases "d < 0.00001")
        case T: True
        with True Some a show ?thesis
          by (subst sweep_loop.simps, subst (2) sweep_loop.simps) simp
      next
        case F: False
        from "1.IH"[OF True Some[unfolded a] refl F]
        show ?thesis using True Some a F
          by (subst sweep_loop.simps, subst (2) sweep_loop.simps) simp
      qed
    qed
  qed
qed

lemma solve_as_sweep_loop:
  assumes pos: "0 < timestep" "0 < s_density s" "0 < s_hx s"
  shows "(if iteration_type s = ITER_JACOBI then project_jacobi limit timestep s
    else project limit timestep s) =
   (case sweep_loop (pressure_sweep timestep s) limit 0 None (s_p s, s_p2 s) of
      None \<Rightarrow> None
    | Some (pp, rep) \<Rightarrow> Some (s\<lparr>s_p := fst pp, s_p2 := snd pp\<rparr>, rep))"
proof (cases "iteration_type s = ITER_JACOBI")
  case True
  define sw where "sw = jacobi_sweep (s_w s) (s_h s) (timestep/(s_density s * s_hx s * s_hx s)) (s_r s)"
  have e: "pressure_sweep timestep s = sw"
    using True by (intro ext) (simp add: pressure_sweep_def sw_def pressure_scale(1)[OF pos])
  have pj: "project_jacobi limit timestep s =
      (case sweep_loop sw limit 0 None (s_p s, s_p2 s) of
         None \<Rightarrow> None
       | Some (pp, rep) \<Rightarrow> Some (s\<lparr>s_p := fst pp, s_p2 := snd pp\<rparr>, rep))"
    unfolding project_jacobi_def pressure_scale(1)[OF pos]
    by (cases "sweep_loop sw limit 0 None (s_p s, s_p2 s)") (auto simp: sw_def)
  show ?thesis unfolding e using True pj by simp
next
  case False
  define gs where "gs = project_sweep (s_w s) (s_h s) (timestep/(s_density s * s_hx s * s_hx s)) (s_r s)"
  have e: "pressure_sweep timestep s =
      (\<lambda>pp. case gs (fst pp) of None \<Rightarrow> None | Some (p', d) \<Rightarrow> Some ((p', snd pp), d))"
    using False by (intro ext) (simp add: pressure_sweep_def gs_def pressure_scale(1)[OF pos])
  have pj: "project limit timestep s =
      (case sweep_loop gs limit 0 None (s_p s) of
         None \<Rightarrow> None
       | Some (p, rep) \<Rightarrow> Some (s\<lparr>s_p := p\<rparr>, rep))"
    unfolding project_def pressure_scale(1)[OF pos]
    by (cases "sweep_loop gs limit 0 None (s_p s)") (auto simp: gs_def)
  show ?thesis unfolding e sweep_loop_lift using False pj
    by (cases "sweep_loop gs limit 0 None (s_p s)") auto
qed

lemma flip_wf: "wf_field q \<Longrightarrow> wf_field (flip q)"
  by (simp add: wf_field_def flip_def)

lemma advect_total:
  assumes "wf_field q" "wf_field u" "wf_field v"
  shows "\<exists>dst'. advect timestep u v q = Some (q\<lparr>q_dst := dst'\<rparr>) \<and> length dst' = length (q_dst q) \<and>
     (\<forall>k < length dst'.
        advect_value timestep u v q (int (k div nat (q_w q))) (int (k mod nat (q_w q))) = Some (dst' ! k))"
proof -
  have val: "\<exists>c. advect_value timestep u v q iy ix = Some c \<and> True" for iy ix
    using advect_value_bounds[OF assms(2,3,1) src_bounds[OF assms(1)], of timestep iy ix] by blast
  from advect_result[OF assms(1), of timestep u v "\<lambda>c. True"] val
  show ?thesis by simp
qed

subsection \<open>Sampling next to a wall at rest\<close>

lemma lerp_xy_clamp:
  "lerp_xy q x y =
    (let cx = clamp_coord (x - q_ox q) (q_w q);
         cy = clamp_coord (y - q_oy q) (q_h q);
         ix = trunc_int cx;
         iy = trunc_int cy
     in do {
       x00 \<leftarrow> at_xy q ix iy;
       x10 \<leftarrow> at_xy q (ix + 1) iy;
       x01 \<leftarrow> at_xy q ix (iy + 1);
       x11 \<leftarrow> at_xy q (ix + 1) (iy + 1);
       Some (lerp (lerp x00 x10 (cx - real_of_int ix)) (lerp x01 x11 (cx - real_of_int ix))
               (cy - real_of_int iy)) })"
  by (simp add: lerp_xy_def clamp_coord_def Let_def)

lemma cerp_xy_clamp:
  "cerp_xy q x y =
    (let cx = clamp_coord (x - q_ox q) (q_w q);
         cy = clamp_coord (y - q_oy q) (q_h q);
         ix = trunc_int cx;
         iy = trunc_int cy
     in do {
       q0 \<leftarrow> cerp_row q (max (ix - 1) 0) ix (ix + 1) (min (ix + 2) (q_w q - 1)) (max (iy - 1) 0)
               (cx - real_of_int ix);
       q1 \<leftarrow> cerp_row q (max (ix - 1) 0) ix (ix + 1) (min (ix + 2) (q_w q - 1)) iy
               (cx - real_of_int ix);
       q2 \<leftarrow> cerp_row q (max (ix - 1) 0) ix (ix + 1) (min (ix + 2) (q_w q - 1)) (iy + 1)
               (cx - real_of_int ix);
       q3 \<leftarrow> cerp_row q (max (ix - 1) 0) ix (ix + 1) (min (ix + 2) (q_w q - 1))
               (min (iy + 2) (q_h q - 1)) (cx - real_of_int ix);
       Some (cerp q0 q1 q2 q3 (cy - real_of_int iy)) })"
  by (simp add: cerp_xy_def clamp_coord_def Let_def)

lemma clamp_coord_zero: "a \<le> 0 \<Longrightarrow> 2 \<le> n \<Longrightarrow> clamp_coord a n = 0"
  by (simp add: clamp_coord_def)

lemma clamp_coord_cell:
  assumes "2 \<le> n"
  shows "0 \<le> trunc_int (clamp_coord a n)" "trunc_int (clamp_coord a n) \<le> n - 2"
  using clamp_cell(1,2)[OF assms, of a] by (simp_all add: clamp_coord_def)

lemma trunc_int_zero: "trunc_int 0 = 0"
  by (simp add: trunc_int_def)

lemma cerp_at_wall: "cerp 0 0 c d 0 = 0"
  by (simp add: cerp_def Let_def)

lemma cerp_zero: "cerp 0 0 0 0 x = 0"
  by (simp add: cerp_def Let_def)

text \<open>Sampling on a wall that is at rest: the left column of a field with x-offset 0.\<close>

lemma lerp_xy_left_wall:
  assumes wf: "wf_field u" and ox: "q_ox u = 0"
    and wall: "\<forall>y. 0 \<le> y \<and> y < q_h u \<longrightarrow> at_xy u 0 y = Some 0"
    and x: "x \<le> 0"
  shows "lerp_xy u x yy = Some 0"
proof -
  have w: "2 \<le> q_w u" and h: "2 \<le> q_h u" using wf by (auto simp: wf_field_def)
  define iy where "iy = trunc_int (clamp_coord (yy - q_oy u) (q_h u))"
  have iy: "0 \<le> iy" "iy \<le> q_h u - 2" using clamp_coord_cell[OF h] by (auto simp: iy_def)
  have cx: "clamp_coord (x - q_ox u) (q_w u) = 0" using x ox w by (simp add: clamp_coord_zero)
  have a00: "at_xy u 0 iy = Some 0" using wall iy by simp
  have a01: "at_xy u 0 (iy + 1) = Some 0" using wall iy by simp
  obtain b where a10: "at_xy u (0 + 1) iy = Some b"
    using at_xy_Some[OF wf, of 1 iy] w iy by auto
  obtain d where a11: "at_xy u (0 + 1) (iy + 1) = Some d"
    using at_xy_Some[OF wf, of 1 "iy + 1"] w iy by auto
  show ?thesis
    using a00 a01 a10 a11
    unfolding lerp_xy_clamp Let_def cx trunc_int_zero iy_def
    by (simp add: lerp_def)
qed

lemma cerp_xy_left_wall:
  assumes wf: "wf_field u" and ox: "q_ox u = 0"
    and wall: "\<forall>y. 0 \<le> y \<and> y < q_h u \<longrightarrow> at_xy u 0 y = Some 0"
    and x: "x \<le> 0"
  shows "cerp_xy u x yy = Some 0"
proof -
  have w: "2 \<le> q_w u" and h: "2 \<le> q_h u" using wf by (auto simp: wf_field_def)
  define iy where "iy = trunc_int (clamp_coord (yy - q_oy u) (q_h u))"
  have iy: "0 \<le> iy" "iy \<le> q_h u - 2" using clamp_coord_cell[OF h] by (auto simp: iy_def)
  have cx: "clamp_coord (x - q_ox u) (q_w u) = 0" using x ox w by (simp add: clamp_coord_zero)
  have row: "cerp_row u (max (0 - 1) 0) 0 (0 + 1) (min (0 + 2) (q_w u - 1)) y (0 - real_of_int 0) = Some 0"
    if y: "0 \<le> y" "y < q_h u" for y
  proof -
    have a: "at_xy u 0 y = Some 0" using wall y by simp
    obtain c where c: "at_xy u 1 y = Some c" using at_xy_Some[OF wf, of 1 y] w y by auto
    obtain d where d: "at_xy u (min 2 (q_w u - 1)) y = Some d"
      using at_xy_Some[OF wf, of "min 2 (q_w u - 1)" y] w y by auto
    show ?thesis by (simp add: cerp_row_def a c d cerp_at_wall)
  qed
  have r0: "cerp_row u (max (0 - 1) 0) 0 (0 + 1) (min (0 + 2) (q_w u - 1)) (max (iy - 1) 0) (0 - real_of_int 0) = Some 0"
    using iy h by (intro row) auto
  have r1: "cerp_row u (max (0 - 1) 0) 0 (0 + 1) (min (0 + 2) (q_w u - 1)) iy (0 - real_of_int 0) = Some 0"
    using iy h by (intro row) auto
  have r2: "cerp_row u (max (0 - 1) 0) 0 (0 + 1) (min (0 + 2) (q_w u - 1)) (iy + 1) (0 - real_of_int 0) = Some 0"
    using iy h by (intro row) auto
  have r3: "cerp_row u (max (0 - 1) 0) 0 (0 + 1) (min (0 + 2) (q_w u - 1)) (min (iy + 2) (q_h u - 1)) (0 - real_of_int 0) = Some 0"
    using iy h by (intro row) auto
  show ?thesis
    using r0 r1 r2 r3
    unfolding cerp_xy_clamp Let_def cx trunc_int_zero iy_def
    by (simp add: cerp_zero)
qed

text \<open>The same on the bottom row of a field with y-offset 0.\<close>

lemma lerp_xy_bottom_wall:
  assumes wf: "wf_field v" and oy: "q_oy v = 0"
    and wall: "\<forall>x. 0 \<le> x \<and> x < q_w v \<longrightarrow> at_xy v x 0 = Some 0"
    and y: "y \<le> 0"
  shows "lerp_xy v xx y = Some 0"
proof -
  have w: "2 \<le> q_w v" and h: "2 \<le> q_h v" using wf by (auto simp: wf_field_def)
  define ix where "ix = trunc_int (clamp_coord (xx - q_ox v) (q_w v))"
  have ix: "0 \<le> ix" "ix \<le> q_w v - 2" using clamp_coord_cell[OF w] by (auto simp: ix_def)
  have cy: "clamp_coord (y - q_oy v) (q_h v) = 0" using y oy h by (simp add: clamp_coord_zero)
  have a00: "at_xy v ix 0 = Some 0" using wall ix by simp
  have a10: "at_xy v (ix + 1) 0 = Some 0" using wall ix by simp
  obtain b where a01: "at_xy v ix (0 + 1) = Some b"
    using at_xy_Some[OF wf, of ix 1] h ix by auto
  obtain d where a11: "at_xy v (ix + 1) (0 + 1) = Some d"
    using at_xy_Some[OF wf, of "ix + 1" 1] h ix by auto
  show ?thesis
    using a00 a01 a10 a11
    unfolding lerp_xy_clamp Let_def cy trunc_int_zero ix_def
    by (simp add: lerp_def)
qed

lemma cerp_xy_bottom_wall:
  assumes wf: "wf_field v" and oy: "q_oy v = 0"
    and wall: "\<forall>x. 0 \<le> x \<and> x < q_w v \<longrightarrow> at_xy v x 0 = Some 0"
    and y: "y \<le> 0"
  shows "cerp_xy v xx y = Some 0"
proof -
  have w: "2 \<le> q_w v" and h: "2 \<le> q_h v" using wf by (auto simp: wf_field_def)
  define cx where "cx = clamp_coord (xx - q_ox v) (q_w v)"
  define ix where "ix = trunc_int cx"
  have ix: "0 \<le> ix" "ix \<le> q_w v - 2" using clamp_coord_cell[OF w] by (auto simp: ix_def cx_def)
  have cy: "clamp_coord (y - q_oy v) (q_h v) = 0" using y oy h by (simp add: clamp_coord_zero)
  have x4: "0 \<le> max (ix - 1) 0" "max (ix - 1) 0 < q_w v" "ix < q_w v" "0 \<le> ix + 1" "ix + 1 < q_w v"
      "0 \<le> min (ix + 2) (q_w v - 1)" "min (ix + 2) (q_w v - 1) < q_w v"
    using ix w by auto
  have wall_row: "cerp_row v (max (ix - 1) 0) ix (ix + 1) (min (ix + 2) (q_w v - 1)) 0 fx = Some 0" for fx
    using wall x4 ix(1) by (simp add: cerp_row_def cerp_zero)
  obtain q2 where q2: "cerp_row v (max (ix - 1) 0) ix (ix + 1) (min (ix + 2) (q_w v - 1)) (0 + 1) (cx - real_of_int ix) = Some q2"
    using cerp_row_bounds[OF wf src_bounds[OF wf] x4(1,2) ix(1) x4(3,4,5,6,7), of 1] h by auto
  obtain q3 where q3: "cerp_row v (max (ix - 1) 0) ix (ix + 1) (min (ix + 2) (q_w v - 1)) (min (0 + 2) (q_h v - 1)) (cx - real_of_int ix) = Some q3"
  proof -
    have y3: "0 \<le> min (0 + 2) (q_h v - 1)" "min (0 + 2) (q_h v - 1) < q_h v" using h by auto
    from cerp_row_bounds[OF wf src_bounds[OF wf] x4(1,2) ix(1) x4(3,4,5,6,7) y3] that
    show ?thesis by blast
  qed
  have m: "max (0 - 1) (0::int) = 0" by simp
  show ?thesis
    using q2 q3
    unfolding cerp_xy_clamp Let_def cy trunc_int_zero ix_def cx_def m
    by (simp add: wall_row[unfolded ix_def cx_def] cerp_at_wall)
qed

subsection \<open>One full step\<close>

lemma rungeKutta3_left_wall:
  assumes wf: "wf_field u" and ox: "q_ox u = 0"
    and wall: "\<forall>y. 0 \<le> y \<and> y < q_h u \<longrightarrow> at_xy u 0 y = Some 0"
    and wfv: "wf_field v"
  shows "\<exists>y'. rungeKutta3 q 0 y timestep u v = Some (0, y')"
proof -
  have lu: "lerp_xy u 0 yy = Some 0" for yy
    by (rule lerp_xy_left_wall[OF wf ox wall]) simp
  have "\<exists>f. \<forall>x y. lerp_xy v x y = Some (f x y)"
    using lerp_xy_total[OF wfv] by metis
  then obtain fv where fv: "\<And>x y. lerp_xy v x y = Some (fv x y)" by blast
  show ?thesis
    unfolding rungeKutta3_def by (simp add: lu fv Let_def)
qed

lemma rungeKutta3_bottom_wall:
  assumes wf: "wf_field v" and oy: "q_oy v = 0"
    and wall: "\<forall>x. 0 \<le> x \<and> x < q_w v \<longrightarrow> at_xy v x 0 = Some 0"
    and wfu: "wf_field u"
  shows "\<exists>x'. rungeKutta3 q x 0 timestep u v = Some (x', 0)"
proof -
  have lv: "lerp_xy v xx 0 = Some 0" for xx
    by (rule lerp_xy_bottom_wall[OF wf oy wall]) simp
  have "\<exists>f. \<forall>x y. lerp_xy u x y = Some (f x y)"
    using lerp_xy_total[OF wfu] by metis
  then obtain fu where fu: "\<And>x y. lerp_xy u x y = Some (fu x y)" by blast
  show ?thesis
    unfolding rungeKutta3_def by (simp add: lv fu Let_def)
qed

lemma advect_value_left_wall:
  assumes wf: "wf_field u" and ox: "q_ox u = 0"
    and wall: "\<forall>y. 0 \<le> y \<and> y < q_h u \<longrightarrow> at_xy u 0 y = Some 0"
    and wfv: "wf_field v"
  shows "advect_value timestep u v u iy 0 = Some 0"
proof -
  obtain y' where "rungeKutta3 u 0 (real_of_int iy + q_oy u) timestep u v = Some (0, y')"
    using rungeKutta3_left_wall[OF wf ox wall wfv] by blast
  moreover have "cerp_xy u 0 y' = Some 0"
    by (rule cerp_xy_left_wall[OF wf ox wall]) simp
  ultimately show ?thesis by (simp add: advect_value_def ox)
qed

lemma advect_value_bottom_wall:
  assumes wf: "wf_field v" and oy: "q_oy v = 0"
    and wall: "\<forall>x. 0 \<le> x \<and> x < q_w v \<longrightarrow> at_xy v x 0 = Some 0"
    and wfu: "wf_field u"
  shows "advect_value timestep u v v 0 ix = Some 0"
proof -
  obtain x' where "rungeKutta3 v (real_of_int ix + q_ox v) 0 timestep u v = Some (x', 0)"
    using rungeKutta3_bottom_wall[OF wf oy wall wfu] by blast
  moreover have "cerp_xy v x' 0 = Some 0"
    by (rule cerp_xy_bottom_wall[OF wf oy wall]) simp
  ultimately show ?thesis by (simp add: advect_value_def oy)
qed

lemma update_steps:
  assumes wf: "wf_solver s" and pos: "0 < timestep"
  shows "\<exists>r' pp rep s3 dd du dv.
      buildRhs s = Some (s\<lparr>s_r := r'\<rparr>) \<and> length r' = length (s_r s) \<and>
      sweep_loop (pressure_sweep timestep (s\<lparr>s_r := r'\<rparr>)) 600 0 None (s_p s, s_p2 s) = Some (pp, rep) \<and>
      pp_ok s pp \<and>
      applyPressure timestep (s\<lparr>s_r := r', s_p := fst pp, s_p2 := snd pp\<rparr>) = Some s3 \<and>
      wf_solver s3 \<and> s_p s3 = fst pp \<and> s_p2 s3 = snd pp \<and> s_r s3 = r' \<and>
      s_w s3 = s_w s \<and> s_h s3 = s_h s \<and>
      (\<forall>y. 0 \<le> y \<and> y < s_h s \<longrightarrow>
          at_xy (s_u s3) 0 y = Some 0 \<and> at_xy (s_u s3) (s_w s) y = Some 0) \<and>
      (\<forall>x. 0 \<le> x \<and> x < s_w s \<longrightarrow>
          at_xy (s_v s3) x 0 = Some 0 \<and> at_xy (s_v s3) x (s_h s) = Some 0) \<and>
      advect timestep (s_u s3) (s_v s3) (s_d s3) = Some (s_d s3\<lparr>q_dst := dd\<rparr>) \<and>
      length dd = length (q_dst (s_d s3)) \<and>
      advect timestep (s_u s3) (s_v s3) (s_u s3) = Some (s_u s3\<lparr>q_dst := du\<rparr>) \<and>
      length du = length (q_dst (s_u s3)) \<and>
      (\<forall>k < length du. advect_value timestep (s_u s3) (s_v s3) (s_u s3)
            (int (k div nat (s_w s + 1))) (int (k mod nat (s_w s + 1))) = Some (du ! k)) \<and>
      advect timestep (s_u s3\<lparr>q_dst := du\<rparr>) (s_v s3) (s_v s3) = Some (s_v s3\<lparr>q_dst := dv\<rparr>) \<and>
      length dv = length (q_dst (s_v s3)) \<and>
      (\<forall>k < length dv. advect_value timestep (s_u s3\<lparr>q_dst := du\<rparr>) (s_v s3) (s_v s3)
            (int (k div nat (s_w s))) (int (k mod nat (s_w s))) = Some (dv ! k)) \<and>
      update timestep s =
        Some (s3\<lparr>s_d := flip (s_d s3\<lparr>q_dst := dd\<rparr>), s_u := flip (s_u s3\<lparr>q_dst := du\<rparr>),
                 s_v := flip (s_v s3\<lparr>q_dst := dv\<rparr>)\<rparr>, rep)"
proof -
  obtain r' where r': "buildRhs s = Some (s\<lparr>s_r := r'\<rparr>)" "length r' = length (s_r s)"
    using buildRhs_total[OF wf] by blast
  define s1 where "s1 = s\<lparr>s_r := r'\<rparr>"
  have wf1: "wf_solver s1" using wf r'(2) by (simp add: wf_solver_def s1_def)
  have pre: "2 \<le> s_w s1" "0 \<le> s_h s1" "length (s_r s1) = nat (s_w s1 * s_h s1)"
      "pp_ok s1 (s_p s1, s_p2 s1)" "0 < s_density s1" "0 < s_hx s1"
    using wf1 by (auto simp: wf_solver_def pp_ok_def)
  have "\<exists>pp rep. sweep_loop (pressure_sweep timestep s1) 600 0 None (s_p s1, s_p2 s1) = Some (pp, rep)
      \<and> pp_ok s1 pp"
  proof (rule sweep_loop_total[where J = "pp_ok s1"])
    fix p assume "pp_ok s1 p"
    then show "\<exists>p' d. pressure_sweep timestep s1 p = Some (p', d) \<and> pp_ok s1 p'"
      by (rule pressure_sweep_total[OF pre(1,2,3) _ pos pre(5,6)])
  qed (use pre(4) in simp_all)
  then obtain pp rep where sl: "sweep_loop (pressure_sweep timestep s1) 600 0 None (s_p s1, s_p2 s1) = Some (pp, rep)"
      and ok: "pp_ok s1 pp" by blast
  define s2 where "s2 = s1\<lparr>s_p := fst pp, s_p2 := snd pp\<rparr>"
  have solve: "(if iteration_type s1 = ITER_JACOBI then project_jacobi 600 timestep s1
       else project 600 timestep s1) = Some (s2, rep)"
    unfolding solve_as_sweep_loop[OF pos pre(5,6)] using sl by (simp add: s2_def)
  have wf2: "wf_solver s2" using wf1 ok by (simp add: wf_solver_def s2_def pp_ok_def)
  from applyPressure_result[OF wf2, of timestep]
  obtain u' v' where ap: "applyPressure timestep s2 = Some (s2\<lparr>s_u := u', s_v := v'\<rparr>)"
      "same_shape (s_u s2) u'" "same_shape (s_v s2) v'"
      "\<forall>y. 0 \<le> y \<and> y < s_h s2 \<longrightarrow> at_xy u' 0 y = Some 0 \<and> at_xy u' (s_w s2) y = Some 0"
      "\<forall>x. 0 \<le> x \<and> x < s_w s2 \<longrightarrow> at_xy v' x 0 = Some 0 \<and> at_xy v' x (s_h s2) = Some 0"
    by blast
  define s3 where "s3 = s2\<lparr>s_u := u', s_v := v'\<rparr>"
  have wf3: "wf_solver s3" unfolding s3_def by (rule wf_solver_velocities[OF wf2 ap(2,3)])
  have f3: "wf_field (s_d s3)" "wf_field (s_u s3)" "wf_field (s_v s3)" "q_w (s_u s3) = s_w s + 1"
      "q_w (s_v s3) = s_w s"
    using wf3 by (auto simp: wf_solver_def s3_def s2_def s1_def)
  obtain dd where dd: "advect timestep (s_u s3) (s_v s3) (s_d s3) = Some (s_d s3\<lparr>q_dst := dd\<rparr>)"
      "length dd = length (q_dst (s_d s3))"
    using advect_total[OF f3(1,2,3)] by blast
  obtain du where du: "advect timestep (s_u s3) (s_v s3) (s_u s3) = Some (s_u s3\<lparr>q_dst := du\<rparr>)"
      "length du = length (q_dst (s_u s3))"
      "\<forall>k < length du. advect_value timestep (s_u s3) (s_v s3) (s_u s3)
            (int (k div nat (q_w (s_u s3)))) (int (k mod nat (q_w (s_u s3)))) = Some (du ! k)"
    using advect_total[OF f3(2,2,3)] by blast
  have wfu': "wf_field (s_u s3\<lparr>q_dst := du\<rparr>)" using f3(2) du(2) by (simp add: wf_field_def)
  obtain dv where dv: "advect timestep (s_u s3\<lparr>q_dst := du\<rparr>) (s_v s3) (s_v s3) = Some (s_v s3\<lparr>q_dst := dv\<rparr>)"
      "length dv = length (q_dst (s_v s3))"
      "\<forall>k < length dv. advect_value timestep (s_u s3\<lparr>q_dst := du\<rparr>) (s_v s3) (s_v s3)
            (int (k div nat (q_w (s_v s3)))) (int (k mod nat (q_w (s_v s3)))) = Some (dv ! k)"
    using advect_total[OF f3(3) wfu' f3(3)] by blast
  have upd: "update timestep s =
        Some (s3\<lparr>s_d := flip (s_d s3\<lparr>q_dst := dd\<rparr>), s_u := flip (s_u s3\<lparr>q_dst := du\<rparr>),
                 s_v := flip (s_v s3\<lparr>q_dst := dv\<rparr>)\<rparr>, rep)"
    unfolding update_def
    using r'(1) solve ap(1) dd(1) du(1) dv(1)
    by (simp add: s1_def[symmetric] s3_def[symmetric])
  have walls: "\<forall>y. 0 \<le> y \<and> y < s_h s \<longrightarrow> at_xy (s_u s3) 0 y = Some 0 \<and> at_xy (s_u s3) (s_w s) y = Some 0"
      "\<forall>x. 0 \<le> x \<and> x < s_w s \<longrightarrow> at_xy (s_v s3) x 0 = Some 0 \<and> at_xy (s_v s3) x (s_h s) = Some 0"
    using ap(4,5) by (simp_all add: s3_def s2_def s1_def)
  have ap': "applyPressure timestep (s\<lparr>s_r := r', s_p := fst pp, s_p2 := snd pp\<rparr>) = Some s3"
    using ap(1) by (simp add: s3_def s2_def s1_def)
  have sl': "sweep_loop (pressure_sweep timestep (s\<lparr>s_r := r'\<rparr>)) 600 0 None (s_p s, s_p2 s) = Some (pp, rep)"
    using sl by (simp add: s1_def)
  have ok': "pp_ok s pp" using ok by (simp add: pp_ok_def s1_def)
  have misc: "s_p s3 = fst pp" "s_p2 s3 = snd pp" "s_r s3 = r'" "s_w s3 = s_w s" "s_h s3 = s_h s"
    by (simp_all add: s3_def s2_def s1_def)
  show ?thesis
    using r' sl' ok' ap' wf3 misc walls dd du(1,2) du(3)[unfolded f3(4)] dv(1,2)
      dv(3)[unfolded f3(5)] upd
    by blast
qed

lemma update_stages:
  "update timestep s =
     do { (s3, rep) \<leftarrow> project_step timestep s;
          s' \<leftarrow> advect_fields timestep s3;
          Some (s', rep) }"
  by (auto simp: update_def project_step_def advect_fields_def split: Option.bind_splits prod.splits)

lemma cell_value_of_index:
  assumes x: "0 \<le> x" "x < W" and y: "0 \<le> y" "y < H" and len: "length du = nat (W*H)"
    and val: "\<forall>k < length du. f (int (k div nat W)) (int (k mod nat W)) = Some (du ! k)"
  shows "rd du (x + y*W) = f y x"
proof -
  define k where "k = nat (x + y*W)"
  have b: "0 \<le> x + y*W" "x + y*W < W*H" using cell_index[OF x y] by auto
  then have kl: "k < length du" unfolding k_def len by simp
  have W: "0 < W" using x by simp
  have d: "(x + y*W) div W = y" using x by simp
  have m: "(x + y*W) mod W = x" using x by simp
  have "int (k div nat W) = (x + y*W) div W"
    unfolding k_def using b(1) W by (simp add: zdiv_int)
  then have kd: "int (k div nat W) = y" using d by simp
  have "int (k mod nat W) = (x + y*W) mod W"
    unfolding k_def using b(1) W by (simp add: zmod_int)
  then have km: "int (k mod nat W) = x" using m by simp
  have "f y x = Some (du ! k)" using val kl kd km by metis
  moreover have "rd du (x + y*W) = Some (du ! k)"
    using b kl by (simp add: rd_def k_def len)
  ultimately show ?thesis by simp
qed


lemma update_result:
  assumes wf: "wf_solver s" and pos: "0 < timestep"
  shows "\<exists>r' pp rep s3 s' n d.
     buildRhs s = Some (s\<lparr>s_r := r'\<rparr>) \<and>
     (if iteration_type s = ITER_JACOBI then project_jacobi 600 timestep (s\<lparr>s_r := r'\<rparr>)
      else project 600 timestep (s\<lparr>s_r := r'\<rparr>))
        = Some (s\<lparr>s_r := r', s_p := fst pp, s_p2 := snd pp\<rparr>, rep) \<and>
     sweep_loop (pressure_sweep timestep (s\<lparr>s_r := r'\<rparr>)) 600 0 None (s_p s, s_p2 s) = Some (pp, rep) \<and>
     0 < n \<and> n \<le> 600 \<and>
     sweeps (pressure_sweep timestep (s\<lparr>s_r := r'\<rparr>)) n (s_p s, s_p2 s) = Some pp \<and>
     sweep_delta (pressure_sweep timestep (s\<lparr>s_r := r'\<rparr>)) (n - 1) (s_p s, s_p2 s) = Some d \<and>
     (\<forall>j < n - 1. \<exists>dj. sweep_delta (pressure_sweep timestep (s\<lparr>s_r := r'\<rparr>)) j (s_p s, s_p2 s) = Some dj
          \<and> \<not> dj < 0.00001) \<and>
     (if d < 0.00001 then rep = Exiting (int n - 1) d else n = 600 \<and> rep = Exceeded 600 d) \<and>
     applyPressure timestep (s\<lparr>s_r := r', s_p := fst pp, s_p2 := snd pp\<rparr>) = Some s3 \<and>
     project_step timestep s = Some (s3, rep) \<and>
     (\<forall>y. 0 \<le> y \<and> y < s_h s \<longrightarrow>
          at_xy (s_u s3) 0 y = Some 0 \<and> at_xy (s_u s3) (s_w s) y = Some 0) \<and>
     (\<forall>x. 0 \<le> x \<and> x < s_w s \<longrightarrow>
          at_xy (s_v s3) x 0 = Some 0 \<and> at_xy (s_v s3) x (s_h s) = Some 0) \<and>
     advect_fields timestep s3 = Some s' \<and>
     update timestep s = Some (s', rep) \<and> s_p s' = fst pp \<and> s_p2 s' = snd pp \<and> wf_solver s' \<and>
     (\<forall>y. 0 \<le> y \<and> y < s_h s \<longrightarrow> at_xy (s_u s') 0 y = Some 0) \<and>
     (\<forall>x. 0 \<le> x \<and> x < s_w s \<longrightarrow> at_xy (s_v s') x 0 = Some 0)"
proof -
  from update_steps[OF wf pos]
  obtain r' pp rep s3 dd du dv where
    b: "buildRhs s = Some (s\<lparr>s_r := r'\<rparr>)"
    and sl: "sweep_loop (pressure_sweep timestep (s\<lparr>s_r := r'\<rparr>)) 600 0 None (s_p s, s_p2 s) = Some (pp, rep)"
    and ap: "applyPressure timestep (s\<lparr>s_r := r', s_p := fst pp, s_p2 := snd pp\<rparr>) = Some s3"
    and wf3: "wf_solver s3" and p3: "s_p s3 = fst pp" "s_p2 s3 = snd pp"
    and dims: "s_w s3 = s_w s" "s_h s3 = s_h s"
    and wu: "\<forall>y. 0 \<le> y \<and> y < s_h s \<longrightarrow>
          at_xy (s_u s3) 0 y = Some 0 \<and> at_xy (s_u s3) (s_w s) y = Some 0"
    and wv: "\<forall>x. 0 \<le> x \<and> x < s_w s \<longrightarrow>
          at_xy (s_v s3) x 0 = Some 0 \<and> at_xy (s_v s3) x (s_h s) = Some 0"
    and ad: "advect timestep (s_u s3) (s_v s3) (s_d s3) = Some (s_d s3\<lparr>q_dst := dd\<rparr>)"
      "advect timestep (s_u s3) (s_v s3) (s_u s3) = Some (s_u s3\<lparr>q_dst := du\<rparr>)"
      "advect timestep (s_u s3\<lparr>q_dst := du\<rparr>) (s_v s3) (s_v s3) = Some (s_v s3\<lparr>q_dst := dv\<rparr>)"
    and ld: "length dd = length (q_dst (s_d s3))" "length du = length (q_dst (s_u s3))"
      "length dv = length (q_dst (s_v s3))"
    and vu: "\<forall>k < length du. advect_value timestep (s_u s3) (s_v s3) (s_u s3)
            (int (k div nat (s_w s + 1))) (int (k mod nat (s_w s + 1))) = Some (du ! k)"
    and vv: "\<forall>k < length dv. advect_value timestep (s_u s3\<lparr>q_dst := du\<rparr>) (s_v s3) (s_v s3)
            (int (k div nat (s_w s))) (int (k mod nat (s_w s))) = Some (dv ! k)"
    and upd: "update timestep s =
        Some (s3\<lparr>s_d := flip (s_d s3\<lparr>q_dst := dd\<rparr>), s_u := flip (s_u s3\<lparr>q_dst := du\<rparr>),
                 s_v := flip (s_v s3\<lparr>q_dst := dv\<rparr>)\<rparr>, rep)"
    by blast
  define s' where "s' = s3\<lparr>s_d := flip (s_d s3\<lparr>q_dst := dd\<rparr>), s_u := flip (s_u s3\<lparr>q_dst := du\<rparr>),
                 s_v := flip (s_v s3\<lparr>q_dst := dv\<rparr>)\<rparr>"
  have wf': "wf_solver s'"
    using wf3 ld by (simp add: s'_def wf_solver_def wf_field_def flip_def)
  have ps': "s_p s' = fst pp" "s_p2 s' = snd pp" using p3 by (simp_all add: s'_def)
  have af: "advect_fields timestep s3 = Some s'"
    using ad by (simp add: advect_fields_def s'_def)
  have dpos: "0 < s_density (s\<lparr>s_r := r'\<rparr>)" "0 < s_hx (s\<lparr>s_r := r'\<rparr>)"
    using wf by (simp_all add: wf_solver_def)
  have solve: "(if iteration_type s = ITER_JACOBI then project_jacobi 600 timestep (s\<lparr>s_r := r'\<rparr>)
      else project 600 timestep (s\<lparr>s_r := r'\<rparr>))
        = Some (s\<lparr>s_r := r', s_p := fst pp, s_p2 := snd pp\<rparr>, rep)"
    using solve_as_sweep_loop[OF pos dpos, of 600] sl by simp
  have ps: "project_step timestep s = Some (s3, rep)"
    using b solve ap by (simp add: project_step_def)
  from sweep_loop_char[OF sl]
  obtain n d where n: "0 < n" "int n \<le> 600 - 0"
      "sweeps (pressure_sweep timestep (s\<lparr>s_r := r'\<rparr>)) n (s_p s, s_p2 s) = Some pp"
      "sweep_delta (pressure_sweep timestep (s\<lparr>s_r := r'\<rparr>)) (n - 1) (s_p s, s_p2 s) = Some d"
      "\<forall>j < n - 1. \<exists>dj. sweep_delta (pressure_sweep timestep (s\<lparr>s_r := r'\<rparr>)) j (s_p s, s_p2 s) = Some dj
          \<and> \<not> dj < 0.00001"
      "if d < 0.00001 then rep = Exiting (0 + int n - 1) d
            else int n = 600 - 0 \<and> rep = Exceeded 600 d"
    by auto
  have n600: "n \<le> 600" using n(2) by simp
  have fin: "if d < 0.00001 then rep = Exiting (int n - 1) d else n = 600 \<and> rep = Exceeded 600 d"
    using n(6) by (auto split: if_splits)
  have f3: "wf_field (s_u s3)" "wf_field (s_v s3)" "q_w (s_u s3) = s_w s + 1" "q_h (s_u s3) = s_h s"
      "q_w (s_v s3) = s_w s" "q_h (s_v s3) = s_h s + 1" "q_ox (s_u s3) = 0" "q_oy (s_v s3) = 0"
    using wf3 dims by (auto simp: wf_solver_def)
  have dim2: "2 \<le> s_w s" "2 \<le> s_h s" using wf by (simp_all add: wf_solver_def)
  have wfu': "wf_field (s_u s3\<lparr>q_dst := du\<rparr>)" using f3(1) ld(2) by (simp add: wf_field_def)
  have lu: "length du = nat ((s_w s + 1) * s_h s)"
    using ld(2) f3(1,3,4) by (simp add: wf_field_def)
  have lv: "length dv = nat (s_w s * (s_h s + 1))"
    using ld(3) f3(2,5,6) by (simp add: wf_field_def)
  have wallu: "\<forall>y. 0 \<le> y \<and> y < q_h (s_u s3) \<longrightarrow> at_xy (s_u s3) 0 y = Some 0"
    using wu f3(4) by simp
  have wallv: "\<forall>x. 0 \<le> x \<and> x < q_w (s_v s3) \<longrightarrow> at_xy (s_v s3) x 0 = Some 0"
    using wv f3(5) by simp
  have lowu: "at_xy (s_u s') 0 y = Some 0" if y: "0 \<le> y" "y < s_h s" for y
  proof -
    have "rd du (0 + y*(s_w s + 1)) = advect_value timestep (s_u s3) (s_v s3) (s_u s3) y 0"
      by (rule cell_value_of_index[OF _ _ y lu vu]) (use dim2 in simp_all)
    also have "\<dots> = Some 0"
      by (rule advect_value_left_wall[OF f3(1) f3(7) wallu f3(2)])
    finally show ?thesis by (simp add: s'_def at_xy_def flip_def f3(3))
  qed
  have lowv: "at_xy (s_v s') x 0 = Some 0" if x: "0 \<le> x" "x < s_w s" for x
  proof -
    have "rd dv (x + 0*s_w s)
        = advect_value timestep (s_u s3\<lparr>q_dst := du\<rparr>) (s_v s3) (s_v s3) 0 x"
      by (rule cell_value_of_index[OF x _ _ _ vv]) (use dim2 lv in simp_all)
    also have "\<dots> = Some 0"
      by (rule advect_value_bottom_wall[OF f3(2) f3(8) wallv wfu'])
    finally show ?thesis by (simp add: s'_def at_xy_def flip_def f3(5))
  qed
  show ?thesis
    using b solve sl n(1) n600 n(3,4,5) fin ap ps wu wv af upd[folded s'_def] ps' wf' lowu lowv
    by blast
qed

subsection \<open>A step of the rotating solver\<close>

lemma upto_small: "[0..(1::int)] = [0, 1]" "[0..(2::int)] = [0, 1, 2]"
  by code_simp+

lemma rotating_wf: "wf_solver rotating_solver"
  by (simp add: wf_solver_def wf_field_def rotating_solver_def)

lemma rotating_buildRhs: "buildRhs rotating_solver = Some rotating_solver"
  by (simp add: buildRhs_def buildRhs_cell_def rotating_solver_def upto_small at_xy_def rd_def wr_def
      fdiv_def Let_def)

lemma rotating_sweep:
  "pressure_sweep (1/2) rotating_solver ([0, 0, 0, 0], [0, 0, 0, 0]) = Some (([0, 0, 0, 0], [0, 0, 0, 0]), 0)"
  by (simp add: pressure_sweep_def jacobi_sweep_def jacobi_cell_def relax_cell_def memcpy_cells_def
      rotating_solver_def upto_small rd_def wr_def fdiv_def Let_def)

lemma rotating_solve:
  "sweep_loop (pressure_sweep (1/2) rotating_solver) 600 0 None ([0, 0, 0, 0], [0, 0, 0, 0])
     = Some (([0, 0, 0, 0], [0, 0, 0, 0]), Exiting 0 0)"
  by (subst sweep_loop.simps) (simp add: rotating_sweep)

lemma rotating_applyPressure: "applyPressure (1/2) rotating_solver = Some rotating_solver"
  by (simp add: applyPressure_def applyPressure_cell_def add_at_def set_at_def at_xy_def
      zero_u_walls_def zero_v_walls_def rotating_solver_def upto_small rd_def wr_def fdiv_def Let_def)

lemma rotating_u_samples:
  "lerp_xy (s_u rotating_solver) 2 (1/2) = Some (1/1000)"
  "lerp_xy (s_u rotating_solver) (3999/2000) (501/2000) = Some (1/1000)"
  "lerp_xy (s_u rotating_solver) (7997/4000) (1250003/4000000) = Some (1/1000)"
  by (simp_all add: lerp_xy_def rotating_solver_def at_xy_def rd_def trunc_int_def lerp_def Let_def)

lemma rotating_v_samples:
  "lerp_xy (s_v rotating_solver) 2 (1/2) = Some (499/1000)"
  "lerp_xy (s_v rotating_solver) (3999/2000) (501/2000) = Some (249999/1000000)"
  "lerp_xy (s_v rotating_solver) (7997/4000) (1250003/4000000) = Some (623751497/2000000000)"
  by (simp_all add: lerp_xy_def rotating_solver_def at_xy_def rd_def trunc_int_def lerp_def Let_def)

lemma rotating_u_geometry:
  "q_hx (s_u rotating_solver) = 1/2" "q_ox (s_u rotating_solver) = 0" "q_oy (s_u rotating_solver) = 1/2"
  "q_w (s_u rotating_solver) = 3" "q_h (s_u rotating_solver) = 2"
  "length (q_dst (s_u rotating_solver)) = 6"
  by (simp_all add: rotating_solver_def)

lemma rotating_trace:
  "rungeKutta3 (s_u rotating_solver) 2 (1/2) (1/2) (s_u rotating_solver) (s_v rotating_solver)
     = Some (17993/9000, 2128251503/9000000000)"
  by (simp add: rungeKutta3_def rotating_u_samples rotating_v_samples rotating_u_geometry Let_def)

lemma rotating_cerp_values:
  "cerp 0 1 0 0 (999/1000) = 1003997/2000000000"
  "cerp 0 (-1) 0 0 (999/1000) = - (1003997/2000000000)"
  "cerp (1003997/2000000000) (1003997/2000000000) (- (1003997/2000000000)) (- (1003997/2000000000)) 0
     = 1003997/2000000000"
  by (simp_all add: cerp_def Let_def)

lemma rotating_u_rows:
  "cerp_row (s_u rotating_solver) 0 1 2 2 0 (999/1000) = Some (1003997/2000000000)"
  "cerp_row (s_u rotating_solver) 0 1 2 2 1 (999/1000) = Some (- (1003997/2000000000))"
  by (simp_all add: cerp_row_def at_xy_def rd_def rotating_solver_def rotating_cerp_values)

lemma rotating_resample:
  "cerp_xy (s_u rotating_solver) (17993/9000) (2128251503/9000000000) = Some (1003997/2000000000)"
  by (simp add: cerp_xy_def trunc_int_def Let_def rotating_u_geometry rotating_u_rows
      rotating_cerp_values)

lemma rotating_value:
  "advect_value (1/2) (s_u rotating_solver) (s_v rotating_solver) (s_u rotating_solver) 0 2
     = Some (1003997/2000000000)"
  by (simp add: advect_value_def rotating_u_geometry rotating_trace rotating_resample)


lemma half_pos: "(0::real) < 1/2"
  by simp

lemma jet_wf: "wf_solver jet_solver"
  by (simp add: wf_solver_def wf_field_def jet_solver_def)


text \<open>
  C2, as far as the code keeps it. For a well-formed solver and a positive timestep the
  step completes. Right after projection all four walls are at rest: the x-velocity is
  0 at \<open>x = 0\<close> and \<open>x = width\<close> in every row, the y-velocity is 0 at \<open>y = 0\<close> and
  \<open>y = height\<close> in every column. After the advection and the flips that end the step,
  the x-velocity is still exactly 0 at \<open>x = 0\<close> in every row and the y-velocity is still
  exactly 0 at \<open>y = 0\<close> in every column; nothing is said of \<open>x = width\<close> and
  \<open>y = height\<close>.
\<close>

theorem update_keeps_low_walls_at_rest:
  assumes "wf_solver s" and "0 < timestep"
  shows "\<exists>s3 s' rep.
     project_step timestep s = Some (s3, rep) \<and>
     (\<forall>y. 0 \<le> y \<and> y < s_h s \<longrightarrow>
          at_xy (s_u s3) 0 y = Some 0 \<and> at_xy (s_u s3) (s_w s) y = Some 0) \<and>
     (\<forall>x. 0 \<le> x \<and> x < s_w s \<longrightarrow>
          at_xy (s_v s3) x 0 = Some 0 \<and> at_xy (s_v s3) x (s_h s) = Some 0) \<and>
     advect_fields timestep s3 = Some s' \<and>
     update timestep s = Some (s', rep) \<and> wf_solver s' \<and>
     (\<forall>y. 0 \<le> y \<and> y < s_h s \<longrightarrow> at_xy (s_u s') 0 y = Some 0) \<and>
     (\<forall>x. 0 \<le> x \<and> x < s_w s \<longrightarrow> at_xy (s_v s') x 0 = Some 0)"
  using update_result[OF assms] by (elim exE conjE) blast

theorem update_keeps_low_walls_at_rest_witness:
  "wf_solver jet_solver \<and> (0::real) < 1/2 \<and>
   (\<exists>s3 s' rep. project_step (1/2) jet_solver = Some (s3, rep) \<and>
      at_xy (s_u s3) 0 1 = Some 0 \<and> at_xy (s_u s3) 2 1 = Some 0 \<and>
      at_xy (s_v s3) 1 0 = Some 0 \<and> at_xy (s_v s3) 1 2 = Some 0 \<and>
      advect_fields (1/2) s3 = Some s' \<and>
      update (1/2) jet_solver = Some (s', rep) \<and>
      at_xy (s_u s') 0 0 = Some 0 \<and> at_xy (s_u s') 0 1 = Some 0 \<and>
      at_xy (s_v s') 0 0 = Some 0 \<and> at_xy (s_v s') 1 0 = Some 0)"
proof -
  have d: "s_w jet_solver = 2" "s_h jet_solver = 2" by (simp_all add: jet_solver_def)
  from update_keeps_low_walls_at_rest[OF jet_wf half_pos]
  obtain s3 s' rep where r: "project_step (1/2) jet_solver = Some (s3, rep)"
      "\<forall>y. 0 \<le> y \<and> y < 2 \<longrightarrow> at_xy (s_u s3) 0 y = Some 0 \<and> at_xy (s_u s3) 2 y = Some 0"
      "\<forall>x. 0 \<le> x \<and> x < 2 \<longrightarrow> at_xy (s_v s3) x 0 = Some 0 \<and> at_xy (s_v s3) x 2 = Some 0"
      "advect_fields (1/2) s3 = Some s'"
      "update (1/2) jet_solver = Some (s', rep)"
      "\<forall>y. 0 \<le> y \<and> y < 2 \<longrightarrow> at_xy (s_u s') 0 y = Some 0"
      "\<forall>x. 0 \<le> x \<and> x < 2 \<longrightarrow> at_xy (s_v s') x 0 = Some 0"
    unfolding d by (elim exE conjE) blast
  have a: "at_xy (s_u s3) 0 1 = Some 0 \<and> at_xy (s_u s3) 2 1 = Some 0" using r(2) by simp
  have b: "at_xy (s_v s3) 1 0 = Some 0 \<and> at_xy (s_v s3) 1 2 = Some 0" using r(3) by simp
  have c: "at_xy (s_u s') 0 0 = Some 0 \<and> at_xy (s_u s') 0 1 = Some 0" using r(6) by simp
  have e: "at_xy (s_v s') 0 0 = Some 0 \<and> at_xy (s_v s') 1 0 = Some 0" using r(7) by simp
  show ?thesis using jet_wf r(1,4,5) a b c e by simp
qed

text \<open>
  C2 as written fails. One step of \<open>rotating_solver\<close> (walls at rest, divergence-free
  interior, timestep 1/2) completes, and afterwards the x-velocity on the wall face
  \<open>x = width\<close> of row 0 is \<open>1003997/2000000000\<close>, not 0: the advection that follows the
  projection resamples that face 0.001 cell inside the domain.
\<close>

theorem update_wall_counterexample:
  "wf_solver rotating_solver \<and> (0::int) < s_h rotating_solver \<and>
   update (1/2) rotating_solver \<noteq> None \<and>
   at_xy (s_u (fst (the (update (1/2) rotating_solver)))) (s_w rotating_solver) 0
     = Some (1003997/2000000000)"
proof -
  from update_steps[OF rotating_wf half_pos]
  obtain r' pp rep s3 dd du dv where
    b: "buildRhs rotating_solver = Some (rotating_solver\<lparr>s_r := r'\<rparr>)"
    and sl: "sweep_loop (pressure_sweep (1/2) (rotating_solver\<lparr>s_r := r'\<rparr>)) 600 0 None
               (s_p rotating_solver, s_p2 rotating_solver) = Some (pp, rep)"
    and ap: "applyPressure (1/2) (rotating_solver\<lparr>s_r := r', s_p := fst pp, s_p2 := snd pp\<rparr>) = Some s3"
    and ldu: "length du = length (q_dst (s_u s3))"
    and du: "\<forall>k < length du. advect_value (1/2) (s_u s3) (s_v s3) (s_u s3)
            (int (k div nat (s_w rotating_solver + 1))) (int (k mod nat (s_w rotating_solver + 1)))
              = Some (du ! k)"
    and upd: "update (1/2) rotating_solver =
        Some (s3\<lparr>s_d := flip (s_d s3\<lparr>q_dst := dd\<rparr>), s_u := flip (s_u s3\<lparr>q_dst := du\<rparr>),
                 s_v := flip (s_v s3\<lparr>q_dst := dv\<rparr>)\<rparr>, rep)"
    by blast
  have e1: "rotating_solver\<lparr>s_r := r'\<rparr> = rotating_solver"
    using b rotating_buildRhs by simp
  have p0: "s_p rotating_solver = [0, 0, 0, 0]" "s_p2 rotating_solver = [0, 0, 0, 0]"
    "s_w rotating_solver = 2" "s_h rotating_solver = 2"
    by (simp_all add: rotating_solver_def)
  have pp: "pp = ([0, 0, 0, 0], [0, 0, 0, 0])"
    using sl rotating_solve unfolding e1 p0 by simp
  have e2: "rotating_solver\<lparr>s_r := r', s_p := fst pp, s_p2 := snd pp\<rparr> = rotating_solver"
  proof -
    have "rotating_solver\<lparr>s_r := r', s_p := fst pp, s_p2 := snd pp\<rparr>
        = rotating_solver\<lparr>s_p := fst pp, s_p2 := snd pp\<rparr>" using e1 by simp
    also have "\<dots> = rotating_solver" unfolding pp by (simp add: rotating_solver_def)
    finally show ?thesis .
  qed
  have s3: "s3 = rotating_solver" using ap rotating_applyPressure unfolding e2 by simp
  have l6: "length du = 6" using ldu unfolding s3 by (simp add: rotating_u_geometry)
  have "advect_value (1/2) (s_u s3) (s_v s3) (s_u s3)
            (int (2 div nat (s_w rotating_solver + 1))) (int (2 mod nat (s_w rotating_solver + 1)))
              = Some (du ! 2)"
    using du l6 by simp
  then have d2: "du ! 2 = 1003997/2000000000"
    unfolding s3 p0 using rotating_value by simp
  have "at_xy (flip (s_u rotating_solver\<lparr>q_dst := du\<rparr>)) 2 0 = Some (du ! 2)"
    using l6 by (simp add: at_xy_def flip_def rd_def rotating_u_geometry)
  then have "at_xy (s_u (fst (the (update (1/2) rotating_solver)))) (s_w rotating_solver) 0
     = Some (1003997/2000000000)"
    unfolding upd s3 p0 d2 by simp
  moreover have "update (1/2) rotating_solver \<noteq> None" unfolding upd by simp
  ultimately show ?thesis using rotating_wf p0 by simp
qed

subsection \<open>The pressure solve within a step\<close>

lemma jet_buildRhs: "buildRhs jet_solver = Some (jet_solver\<lparr>s_r := [-2, 0, 0, 2]\<rparr>)"
  by (simp add: buildRhs_def buildRhs_cell_def jet_solver_def upto_small at_xy_def rd_def wr_def
      fdiv_def Let_def)

lemma jet_sweep_first:
  "pressure_sweep (1/2) (jet_solver\<lparr>s_r := [-2, 0, 0, 2]\<rparr>) ([0, 0, 0, 0], [0, 0, 0, 0])
     = Some (([- (1/2), 0, 0, 1/2], [- (1/2), 0, 0, 1/2]), 1/2)"
  by (simp add: pressure_sweep_def jacobi_sweep_def jacobi_cell_def relax_cell_def memcpy_cells_def
      jet_solver_def upto_small rd_def wr_def fdiv_def Let_def)

lemma jet_sweep_second:
  "pressure_sweep (1/2) (jet_solver\<lparr>s_r := [-2, 0, 0, 2]\<rparr>) ([- (1/2), 0, 0, 1/2], [- (1/2), 0, 0, 1/2])
     = Some (([- (1/2), 0, 0, 1/2], [- (1/2), 0, 0, 1/2]), 0)"
  by (simp add: pressure_sweep_def jacobi_sweep_def jacobi_cell_def relax_cell_def memcpy_cells_def
      jet_solver_def upto_small rd_def wr_def fdiv_def Let_def)

lemma jet_solve:
  "sweep_loop (pressure_sweep (1/2) (jet_solver\<lparr>s_r := [-2, 0, 0, 2]\<rparr>)) 600 0 None
      ([0, 0, 0, 0], [0, 0, 0, 0])
     = Some (([- (1/2), 0, 0, 1/2], [- (1/2), 0, 0, 1/2]), Exiting 1 (0::real))"
  by (subst sweep_loop.simps, simp add: jet_sweep_first, subst sweep_loop.simps, simp add: jet_sweep_second)

lemma jet_pressure: "s_p jet_solver = [0, 0, 0, 0]" "s_p2 jet_solver = [0, 0, 0, 0]"
  by (simp_all add: jet_solver_def)

lemma jet_step:
  "\<exists>s'. update (1/2) jet_solver = Some (s', Exiting 1 0) \<and> s_p s' = [- (1/2), 0, 0, 1/2] \<and>
     s_p2 s' = [- (1/2), 0, 0, 1/2]"
proof -
  from update_result[OF jet_wf half_pos]
  obtain r2 pp2 rep2 s2 where
    b2: "buildRhs jet_solver = Some (jet_solver\<lparr>s_r := r2\<rparr>)"
    and sl: "sweep_loop (pressure_sweep (1/2) (jet_solver\<lparr>s_r := r2\<rparr>)) 600 0 None
               (s_p jet_solver, s_p2 jet_solver) = Some (pp2, rep2)"
    and upd2: "update (1/2) jet_solver = Some (s2, rep2)" "s_p s2 = fst pp2" "s_p2 s2 = snd pp2"
    by (elim exE conjE) blast
  have "jet_solver\<lparr>s_r := r2\<rparr> = jet_solver\<lparr>s_r := [-2, 0, 0, 2]\<rparr>"
    using b2 jet_buildRhs by simp
  with sl jet_solve have "pp2 = ([- (1/2), 0, 0, 1/2], [- (1/2), 0, 0, 1/2])" "rep2 = Exiting 1 0"
    by (simp_all add: jet_pressure)
  with upd2 show ?thesis by simp
qed











subsection \<open>Construction\<close>

lemma and_then_simps:
  "and_then (Inr a) f = f a" "and_then (Inl e) f = Inl e"
  by (simp_all add: and_then_def)

lemma and_then_Inr:
  "(and_then m f = Inr b) = (\<exists>a. m = Inr a \<and> f a = Inr b)"
  by (cases m) (simp_all add: and_then_def)

lemma mul32_Inr: "(mul32 a b = Inr n) = (int32 (a*b) \<and> n = a*b)"
  by (auto simp: mul32_def)

lemma add32_Inr: "(add32 a b = Inr n) = (int32 (a + b) \<and> n = a + b)"
  by (auto simp: add32_def)

lemma new_array_Inr:
  "(new_array garbage n = Inr xs) = (0 \<le> n \<and> xs = map garbage [0..<nat n])"
  by (auto simp: new_array_def)

lemma memset_zero_fresh:
  "0 \<le> n \<Longrightarrow> memset_zero (map garbage [0..<nat n]) n = Inr (replicate (nat n) 0)"
  by (simp add: memset_zero_def)

lemma FluidQuantity_new_eq:
  assumes "int32 (w*h)"
  shows "FluidQuantity_new garbage w h ox oy hx =
     (if w*h < 0 then Inl BadArrayLength
      else Inr \<lparr>q_src = replicate (nat (w*h)) 0, q_dst = map garbage [0..<nat (w*h)],
                 q_w = w, q_h = h, q_ox = ox, q_oy = oy, q_hx = hx\<rparr>)"
  using assms
  by (simp add: FluidQuantity_new_def mul32_def new_array_def and_then_simps memset_zero_fresh)

lemma FluidSolver_new_eq:
  assumes "sizes_fit w h"
  shows "FluidSolver_new garbage w h density =
     (if w*h < 0 \<or> (w + 1)*h < 0 \<or> w*(h + 1) < 0 then Inl BadArrayLength
      else if min w h = 0 then Inl InfiniteCellSize
      else Inr \<lparr>s_d = \<lparr>q_src = replicate (nat (w*h)) 0, q_dst = map garbage [0..<nat (w*h)],
                        q_w = w, q_h = h, q_ox = 0.5, q_oy = 0.5, q_hx = 1.0 / real_of_int (min w h)\<rparr>,
                  s_u = \<lparr>q_src = replicate (nat ((w + 1)*h)) 0, q_dst = map garbage [0..<nat ((w + 1)*h)],
                        q_w = w + 1, q_h = h, q_ox = 0.0, q_oy = 0.5, q_hx = 1.0 / real_of_int (min w h)\<rparr>,
                  s_v = \<lparr>q_src = replicate (nat (w*(h + 1))) 0, q_dst = map garbage [0..<nat (w*(h + 1))],
                        q_w = w, q_h = h + 1, q_ox = 0.5, q_oy = 0.0, q_hx = 1.0 / real_of_int (min w h)\<rparr>,
                  s_w = w, s_h = h, s_hx = 1.0 / real_of_int (min w h), s_density = density,
                  s_r = map garbage [0..<nat (w*h)], s_p = replicate (nat (w*h)) 0,
                  s_p2 = replicate (nat (w*h)) 0, iteration_type = ITER_JACOBI\<rparr>)"
proof -
  have f: "int32 (w*h)" "int32 (w + 1)" "int32 ((w + 1)*h)" "int32 (h + 1)" "int32 (w*(h + 1))"
    using assms by (simp_all add: sizes_fit_def)
  have m: "mul32 w h = Inr (w*h)" "add32 w 1 = Inr (w + 1)" "add32 h 1 = Inr (h + 1)"
    using f by (simp_all add: mul32_def add32_def)
  note q = FluidQuantity_new_eq[OF f(1)] FluidQuantity_new_eq[OF f(3)] FluidQuantity_new_eq[OF f(5)]
  show ?thesis
    by (simp add: FluidSolver_new_def Let_def q m and_then_simps new_array_def memset_zero_fresh)
qed

lemma FluidSolver_new_pressure:
  assumes "FluidSolver_new garbage w h density = Inr s0"
  shows "s_p s0 = replicate (nat (w*h)) 0 \<and> s_p2 s0 = replicate (nat (w*h)) 0 \<and>
     s_w s0 = w \<and> s_h s0 = h"
  using assms unfolding FluidSolver_new_def Let_def and_then_Inr mul32_Inr new_array_Inr
  by (auto simp: memset_zero_fresh split: if_splits)

lemma FluidSolver_new_wf:
  assumes "2 \<le> w" "2 \<le> h" "sizes_fit w h" "0 < density"
  shows "\<exists>s. FluidSolver_new garbage w h density = Inr s \<and> wf_solver s \<and>
           s_w s = w \<and> s_h s = h"
proof -
  have "\<not> w*h < 0" "\<not> (w + 1)*h < 0" "\<not> w*(h + 1) < 0" "min w h \<noteq> 0" "0 < min w h"
    using assms(1,2) by (simp_all add: not_less)
  then show ?thesis
    using assms by (simp add: FluidSolver_new_eq wf_solver_def wf_field_def)
qed

lemma sizes_fit_small:
  "sizes_fit 2 2" "sizes_fit 2 (-1)" "sizes_fit 0 3" "sizes_fit (-1) (-1)" "sizes_fit (-3) (-2)"
  by (simp_all add: sizes_fit_def int32_def)

text \<open>
  The 32-bit check is not idle: the cell count of a \<open>46341 \<times> 46341\<close> grid does not fit an
  \<^verbatim>\<open>int\<close>, and the model returns no solver for it.
\<close>

lemma FluidSolver_new_overflow:
  "FluidSolver_new garbage 46341 46341 density = Inl SignedOverflow"
  by (simp add: FluidSolver_new_def FluidQuantity_new_def mul32_def int32_def and_then_simps)

text \<open>
  C8, as the code has it. The constructor checks nothing. For dimensions whose array
  sizes fit an \<^verbatim>\<open>int\<close>, it fails where \<^verbatim>\<open>new double[n]\<close> is given a negative size, which
  happens exactly when one dimension is negative and the other is not. When both
  dimensions are non-negative and one is 0 the division \<^verbatim>\<open>1.0/min(w, h)\<close> is a division
  by zero. Every other pair of dimensions, among them two negative ones, yields a solver.
\<close>

theorem FluidSolver_new_outcomes:
  assumes "sizes_fit w h"
  shows "(FluidSolver_new garbage w h density = Inl BadArrayLength)
            = ((w < 0 \<and> 0 \<le> h) \<or> (0 \<le> w \<and> h < 0)) \<and>
         (FluidSolver_new garbage w h density = Inl InfiniteCellSize)
            = (0 \<le> w \<and> 0 \<le> h \<and> (w = 0 \<or> h = 0)) \<and>
         (\<exists>s. FluidSolver_new garbage w h density = Inr s)
            = ((0 < w \<and> 0 < h) \<or> (w < 0 \<and> h < 0))"
proof -
  have bad: "(w*h < 0 \<or> (w + 1)*h < 0 \<or> w*(h + 1) < 0) = ((w < 0 \<and> 0 \<le> h) \<or> (0 \<le> w \<and> h < 0))"
    by (auto simp: mult_less_0_iff)
  have zero: "(min w h = 0) = ((w = 0 \<and> 0 \<le> h) \<or> (h = 0 \<and> 0 \<le> w))"
    by (auto simp: min_def)
  show ?thesis
    unfolding FluidSolver_new_eq[OF assms] bad zero by auto
qed

theorem FluidSolver_new_outcomes_witness:
  "sizes_fit 2 (-1) \<and> FluidSolver_new (\<lambda>k. 0) 2 (-1) 1 = Inl BadArrayLength \<and>
   sizes_fit 0 3 \<and> FluidSolver_new (\<lambda>k. 0) 0 3 1 = Inl InfiniteCellSize \<and>
   sizes_fit 2 2 \<and> (\<exists>s. FluidSolver_new (\<lambda>k. 0) 2 2 1 = Inr s) \<and>
   sizes_fit (-3) (-2) \<and> (\<exists>s. FluidSolver_new (\<lambda>k. 0) (-3) (-2) 1 = Inr s)"
  using FluidSolver_new_outcomes[OF sizes_fit_small(2), of "\<lambda>k. 0" 1]
    FluidSolver_new_outcomes[OF sizes_fit_small(3), of "\<lambda>k. 0" 1]
    FluidSolver_new_outcomes[OF sizes_fit_small(1), of "\<lambda>k. 0" 1]
    FluidSolver_new_outcomes[OF sizes_fit_small(5), of "\<lambda>k. 0" 1]
    sizes_fit_small
  by simp

text \<open>
  The claim as written fails: with width \<open>-1\<close> and height \<open>-1\<close> every array size is
  non-negative (\<open>1\<close>, \<open>0\<close>, \<open>0\<close>) and fits an \<^verbatim>\<open>int\<close>, so construction goes through and
  returns a solver with cell size \<open>-1\<close>.
\<close>

theorem FluidSolver_new_counterexample:
  "(-1::int) \<le> 0 \<and>
   FluidSolver_new (\<lambda>k. 0) (-1) (-1) 1 =
     Inr \<lparr>s_d = \<lparr>q_src = [0], q_dst = [0], q_w = -1, q_h = -1, q_ox = 1/2, q_oy = 1/2, q_hx = -1\<rparr>,
           s_u = \<lparr>q_src = [], q_dst = [], q_w = 0, q_h = -1, q_ox = 0, q_oy = 1/2, q_hx = -1\<rparr>,
           s_v = \<lparr>q_src = [], q_dst = [], q_w = -1, q_h = 0, q_ox = 1/2, q_oy = 0, q_hx = -1\<rparr>,
           s_w = -1, s_h = -1, s_hx = -1, s_density = 1,
           s_r = [0], s_p = [0], s_p2 = [0], iteration_type = ITER_JACOBI\<rparr>"
  by (simp add: FluidSolver_new_eq[OF sizes_fit_small(4)])

text \<open>
  C10. Whenever the constructor returns a solver, its two pressure buffers are all
  zero; and \<^verbatim>\<open>update\<close>, run with a positive timestep on a well-formed solver, never
  resets them: the pressure a step leaves behind is the result of running its sweeps
  from the pressure the solver held when the step began. So the first step after
  construction iterates from zero pressure, and each later step iterates from what the
  step before it left.
\<close>

theorem pressure_warm_start:
  assumes "FluidSolver_new garbage w h density = Inr s0" and "wf_solver s" and "0 < timestep"
  shows "s_p s0 = replicate (nat (w*h)) 0 \<and> s_p2 s0 = replicate (nat (w*h)) 0 \<and>
     (\<exists>r' n s' rep. buildRhs s = Some (s\<lparr>s_r := r'\<rparr>) \<and> 0 < n \<and> n \<le> 600 \<and>
        update timestep s = Some (s', rep) \<and>
        sweeps (pressure_sweep timestep (s\<lparr>s_r := r'\<rparr>)) n (s_p s, s_p2 s) = Some (s_p s', s_p2 s'))"
proof -
  have "s_p s0 = replicate (nat (w*h)) 0 \<and> s_p2 s0 = replicate (nat (w*h)) 0"
    using FluidSolver_new_pressure[OF assms(1)] by simp
  moreover from update_result[OF assms(2,3)]
  obtain r' pp rep s' n where "buildRhs s = Some (s\<lparr>s_r := r'\<rparr>)" "0 < n" "n \<le> 600"
      "sweeps (pressure_sweep timestep (s\<lparr>s_r := r'\<rparr>)) n (s_p s, s_p2 s) = Some pp"
      "update timestep s = Some (s', rep)" "s_p s' = fst pp" "s_p2 s' = snd pp"
    by (elim exE conjE) blast
  ultimately show ?thesis by (metis prod.collapse)
qed

theorem pressure_warm_start_witness:
  "(\<exists>s0. FluidSolver_new (\<lambda>k. 0) 2 2 1 = Inr s0 \<and> s_p s0 = [0, 0, 0, 0] \<and> s_p2 s0 = [0, 0, 0, 0]) \<and>
   wf_solver jet_solver \<and> (0::real) < 1/2 \<and>
   (\<exists>s'. update (1/2) jet_solver = Some (s', Exiting 1 0) \<and> s_p s' = [- (1/2), 0, 0, 1/2])"
proof -
  obtain s0 where s0: "FluidSolver_new (\<lambda>k. 0) 2 2 1 = Inr s0"
    using FluidSolver_new_wf[of 2 2 1 "\<lambda>k. 0"] sizes_fit_small(1) by auto
  from pressure_warm_start[OF s0 jet_wf half_pos]
  have p0: "s_p s0 = replicate (nat (2*2)) 0" "s_p2 s0 = replicate (nat (2*2)) 0" by blast+
  have "replicate (nat (2*2)) (0::real) = [0, 0, 0, 0]" by (simp add: numeral_eq_Suc)
  with p0 s0 have "\<exists>s0. FluidSolver_new (\<lambda>k. 0) 2 2 1 = Inr s0 \<and> s_p s0 = [0, 0, 0, 0] \<and>
      s_p2 s0 = [0, 0, 0, 0]" by simp
  with jet_wf jet_step show ?thesis by auto
qed

subsection \<open>Source injection\<close>


lemma blended_refl: "blended src src"
  by (simp add: blended_def)

lemma addInflow_cell_blended:
  assumes "addInflow_cell q x0 y0 x1 y1 v y x src = Some src'" and "blended src0 src"
  shows "blended src0 src'"
proof -
  define i where "i = x + y * q_w q"
  define vi where "vi = cubicPulse (length_xy
               ((2.0*(real_of_int x + 0.5)*q_hx q - (x0 + x1))/(x1 - x0))
               ((2.0*(real_of_int y + 0.5)*q_hx q - (y0 + y1))/(y1 - y0))) * v"
  from assms(1) obtain cur where cur: "rd src i = Some cur"
    and res: "(if \<bar>cur\<bar> < \<bar>vi\<bar> then wr src i vi else Some src) = Some src'"
    unfolding addInflow_cell_def Let_def i_def[symmetric] vi_def[symmetric]
    by (auto split: Option.bind_splits)
  show ?thesis
  proof (cases "\<bar>cur\<bar> < \<bar>vi\<bar>")
    case False
    with res assms(2) show ?thesis by simp
  next
    case True
    with res have w: "wr src i vi = Some src'" by simp
    from rd_SomeD[OF cur] have i: "0 \<le> i" "i < int (length src)" and c: "cur = src ! nat i" by auto
    from wr_SomeD[OF w] have s': "src' = src[nat i := vi]" by simp
    have n: "nat i < length src" using i by linarith
    have len: "length src = length src0" using assms(2) by (simp add: blended_def)
    have "src' ! k = src0 ! k \<or> \<bar>src0 ! k\<bar> < \<bar>src' ! k\<bar>" if k: "k < length src0" for k
    proof (cases "k = nat i")
      case False
      then have "src' ! k = src ! k" unfolding s' by simp
      with assms(2) k show ?thesis by (simp add: blended_def)
    next
      case T: True
      have v': "src' ! k = vi" unfolding s' T using n by simp
      from assms(2) k have "src ! k = src0 ! k \<or> \<bar>src0 ! k\<bar> < \<bar>src ! k\<bar>" by (simp add: blended_def)
      moreover have "\<bar>src ! k\<bar> < \<bar>vi\<bar>" using True c T by simp
      ultimately show ?thesis unfolding v' by auto
    qed
    then show ?thesis unfolding blended_def using len s' by simp
  qed
qed

lemma addInflow_blended:
  assumes "addInflow x0 y0 x1 y1 v q = Some q'"
  shows "blended (q_src q) (q_src q')"
proof -
  define ys xs where "ys = [max (trunc_int (y0 / q_hx q - q_oy q)) 0..min (trunc_int (y1 / q_hx q - q_oy q)) (q_h q) - 1]"
    and "xs = [max (trunc_int (x0 / q_hx q - q_ox q)) 0..min (trunc_int (x1 / q_hx q - q_ox q)) (q_h q) - 1]"
  from assms obtain src' where run: "for_loop ys (\<lambda>y. for_loop xs (addInflow_cell q x0 y0 x1 y1 v y)) (q_src q) = Some src'"
    and q': "q' = q\<lparr>q_src := src'\<rparr>"
    unfolding addInflow_def Let_def ys_def[symmetric] xs_def[symmetric]
    by (auto split: Option.bind_splits)
  have "blended (q_src q) src'"
  proof (rule for_loop_rel[where R = "blended (q_src q)", OF _ blended_refl run])
    fix y s s' assume "blended (q_src q) s" and inner: "for_loop xs (addInflow_cell q x0 y0 x1 y1 v y) s = Some s'"
    then show "blended (q_src q) s'"
      by (intro for_loop_rel[where R = "blended (q_src q)", OF _ _ inner])
         (auto intro: addInflow_cell_blended)
  qed
  then show ?thesis by (simp add: q')
qed

text \<open>
  C6. Whenever \<^verbatim>\<open>addInflow\<close> completes, the buffer keeps its size and every cell either
  keeps its value or holds a value of strictly greater magnitude than before; so no
  cell's magnitude decreases, whatever the rectangle and the injected value.
\<close>

theorem addInflow_never_decreases_magnitude:
  assumes "addInflow x0 y0 x1 y1 v q = Some q'"
  shows "length (q_src q') = length (q_src q) \<and>
    (\<forall>i < length (q_src q).
        (q_src q' ! i = q_src q ! i \<or> \<bar>q_src q ! i\<bar> < \<bar>q_src q' ! i\<bar>) \<and>
        \<bar>q_src q ! i\<bar> \<le> \<bar>q_src q' ! i\<bar>)"
  using addInflow_blended[OF assms] unfolding blended_def by auto

lemma length_xy_zero: "length_xy 0 0 = 0"
  by (simp add: length_xy_def)

lemma cubicPulse_zero: "cubicPulse 0 = 1"
  by (simp add: cubicPulse_def)

lemma corner_inflow:
  "addInflow (-0.25) (-0.25) 0.75 0.75 5 corner_field = Some (corner_field\<lparr>q_src := [5, 0, 0, 1]\<rparr>)"
  by (simp add: addInflow_def addInflow_cell_def corner_field_def trunc_int_def rd_def wr_def
      length_xy_zero cubicPulse_zero Let_def)

theorem addInflow_never_decreases_magnitude_witness:
  "addInflow (-0.25) (-0.25) 0.75 0.75 5 corner_field = Some (corner_field\<lparr>q_src := [5, 0, 0, 1]\<rparr>) \<and>
   length (q_src (corner_field\<lparr>q_src := [5, 0, 0, 1]\<rparr>)) = length (q_src corner_field) \<and>
   \<bar>q_src corner_field ! 0\<bar> < \<bar>q_src (corner_field\<lparr>q_src := [5, 0, 0, 1]\<rparr>) ! 0\<bar> \<and>
   \<bar>q_src corner_field ! 3\<bar> \<le> \<bar>q_src (corner_field\<lparr>q_src := [5, 0, 0, 1]\<rparr>) ! 3\<bar>"
  using addInflow_never_decreases_magnitude[OF corner_inflow] corner_inflow
  by (simp add: corner_field_def)

lemma addInflow_cell_inside:
  assumes "0 \<le> x + y * q_w q" "x + y * q_w q < int (length src)"
  shows "\<exists>src'. addInflow_cell q x0 y0 x1 y1 v y x src = Some src' \<and> length src' = length src"
  using assms by (simp add: addInflow_cell_def Let_def rd_def wr_def)

lemma addInflow_cell_outside:
  assumes "int (length src) \<le> x + y * q_w q"
  shows "addInflow_cell q x0 y0 x1 y1 v y x src = None"
  using assms by (simp add: addInflow_cell_def Let_def rd_def)

lemma addInflow_total:
  assumes wf: "wf_field q" and hw: "q_h q \<le> q_w q"
  shows "\<exists>q'. addInflow x0 y0 x1 y1 v q = Some q'"
proof -
  define ys xs where "ys = [max (trunc_int (y0 / q_hx q - q_oy q)) 0..min (trunc_int (y1 / q_hx q - q_oy q)) (q_h q) - 1]"
    and "xs = [max (trunc_int (x0 / q_hx q - q_ox q)) 0..min (trunc_int (x1 / q_hx q - q_ox q)) (q_h q) - 1]"
  define n where "n = length (q_src q)"
  have n: "int n = q_w q * q_h q" using wf by (simp add: wf_field_def n_def)
  have "\<exists>s'. for_loop ys (\<lambda>y. for_loop xs (addInflow_cell q x0 y0 x1 y1 v y)) (q_src q) = Some s' \<and> length s' = n"
  proof (rule for_loop_inv_set[where I = "\<lambda>s. length s = n"])
    fix y and s :: "real list" assume y: "y \<in> set ys" and s: "length s = n"
    show "\<exists>s'. for_loop xs (addInflow_cell q x0 y0 x1 y1 v y) s = Some s' \<and> length s' = n"
    proof (rule for_loop_inv_set[where I = "\<lambda>s. length s = n"])
      fix x and t :: "real list" assume x: "x \<in> set xs" and t: "length t = n"
      have "0 \<le> x" "x < q_w q" "0 \<le> y" "y < q_h q" using x y hw by (auto simp: xs_def ys_def)
      from cell_index[OF this] n t
      have "0 \<le> x + y * q_w q" "x + y * q_w q < int (length t)" by auto
      from addInflow_cell_inside[OF this] t
      show "\<exists>s'. addInflow_cell q x0 y0 x1 y1 v y x t = Some s' \<and> length s' = n" by auto
    qed (rule s)
  qed (simp add: n_def)
  then show ?thesis
    unfolding addInflow_def Let_def ys_def[symmetric] xs_def[symmetric] by auto
qed

lemma still_v_inflow_ranges:
  "[max (trunc_int (0 / q_hx still_v - q_oy still_v)) 0..min (trunc_int (2 / q_hx still_v - q_oy still_v)) (q_h still_v) - 1] = [0, 1, 2]"
  "[max (trunc_int (0 / q_hx still_v - q_ox still_v)) 0..min (trunc_int (2 / q_hx still_v - q_ox still_v)) (q_h still_v) - 1] = [0, 1, 2]"
  by code_simp+

text \<open>
  C4. \<^verbatim>\<open>addInflow\<close> bounds its column loop by \<^verbatim>\<open>_h\<close>, not by \<^verbatim>\<open>_w\<close>. On the \<open>2\<times>3\<close>
  y-velocity field of a \<open>2\<times>2\<close> solver, with the rectangle \<open>(0, 0)\<close> to \<open>(2, 2)\<close> (it covers the
  whole domain and more, so that clamping to the grid decides the cells), the loops visit
  rows 0, 1, 2 and columns 0, 1, 2: column 2 is not a column of the field, and at row 2
  it is index 6 of a buffer of 6 cells, so the call leaves the buffer.
\<close>

theorem addInflow_column_bound_uses_height:
  "q_w still_v = 2 \<and> length (q_src still_v) = 6 \<and>
   [max (trunc_int (0 / q_hx still_v - q_ox still_v)) 0..
      min (trunc_int (2 / q_hx still_v - q_ox still_v)) (q_h still_v) - 1] = [0, 1, 2] \<and>
   [max (trunc_int (0 / q_hx still_v - q_oy still_v)) 0..
      min (trunc_int (2 / q_hx still_v - q_oy still_v)) (q_h still_v) - 1] = [0, 1, 2] \<and>
   addInflow 0 0 2 2 3 still_v = None"
proof -
  define cell where "cell = addInflow_cell still_v 0 0 2 2 3"
  have w: "q_w still_v = 2" and l: "length (q_src still_v) = 6" by (simp_all add: still_v_def)
  have inside: "\<exists>t'. cell y x t = Some t' \<and> length t' = 6"
    if "length t = 6" "0 \<le> x + y * 2" "x + y * 2 < 6" for y x t
    using addInflow_cell_inside[of x y still_v t 0 0 2 2 3] that by (simp add: cell_def w)
  have row: "\<exists>t'. for_loop [0, 1, 2] (cell y) t = Some t' \<and> length t' = 6"
    if "length t = 6" "y = 0 \<or> y = 1" for y t
  proof (rule for_loop_inv_set[where I = "\<lambda>s. length s = 6"])
    fix x :: int and s :: "real list" assume "x \<in> set [0, 1, 2]" "length s = 6"
    with that(2) show "\<exists>s'. cell y x s = Some s' \<and> length s' = 6"
      by (intro inside) auto
  qed (rule that(1))
  obtain t0 where t0: "for_loop [0, 1, 2] (cell 0) (q_src still_v) = Some t0" "length t0 = 6"
    using row[OF l, of 0] by auto
  obtain t1 where t1: "for_loop [0, 1, 2] (cell 1) t0 = Some t1" "length t1 = 6"
    using row[OF t0(2), of 1] by auto
  obtain a where a: "cell 2 0 t1 = Some a" "length a = 6"
    using inside[OF t1(2), of 0 2] by auto
  obtain b where b: "cell 2 1 a = Some b" "length b = 6"
    using inside[OF a(2), of 1 2] by auto
  have c: "cell 2 2 b = None"
    using addInflow_cell_outside[of b 2 2 still_v 0 0 2 2 3] b(2) by (simp add: cell_def w)
  have "for_loop [0, 1, 2] (cell 2) t1 = None" using a b c by simp
  with t0 t1 have "for_loop [0, 1, 2] (\<lambda>y. for_loop [0, 1, 2] (cell y)) (q_src still_v) = None"
    by simp
  then have "addInflow 0 0 2 2 3 still_v = None"
    unfolding addInflow_def Let_def still_v_inflow_ranges cell_def by simp
  with w l still_v_inflow_ranges show ?thesis by simp
qed

end
